theory Spec2Isabelle
  imports Complex_Main "HOL-Library.Multiset"
begin

section \<open>Order model (src/models/order.model.ts)\<close>

text \<open>
  JavaScript numbers are modelled as exact reals. Strings are lists of characters, read
  as code units (the characters of Isabelle are the code units below 256; the hash loop
  itself is defined for any list of code units). Timestamps (\<open>createdAt\<close>,
  \<open>updatedAt\<close>, \<open>timestamp\<close>) and log output carry no behaviour that the properties
  below depend on and are left out of the records. An optional field \<open>f?: T\<close> is a
  field of type \<open>T option\<close>.
\<close>

datatype OrderStatus = PENDING | ROUTING | BUILDING | SUBMITTED | CONFIRMED | FAILED

datatype OrderType = MARKET | LIMIT | SNIPER

datatype Dex = raydium | meteora

record Order =
  order_id :: string
  order_type :: OrderType
  tokenIn :: string
  tokenOut :: string
  amountIn :: real
  slippage :: real
  status :: OrderStatus
  selectedDex :: "Dex option"
  raydiumQuote :: "real option"
  meteoraQuote :: "real option"
  executedPrice :: "real option"
  outputAmount :: "real option"
  txHash :: "string option"
  order_error :: "string option"
  retryCount :: nat

record DexQuote =
  dex :: Dex
  price :: real
  fee :: real
  estimatedOutput :: real

record ExecutionResult =
  success :: bool
  res_txHash :: "string option"
  res_executedPrice :: "real option"
  res_outputAmount :: "real option"
  res_error :: "string option"

section \<open>MockDexRouter (src/services/dex-router.service.ts)\<close>

text \<open>\<open>ToInt32\<close>: the value of a number after a bitwise operator, in \<open>[-2^31, 2^31)\<close>.\<close>

definition toInt32 :: "int \<Rightarrow> int" where
  "toInt32 x = (x + 2 ^ 31) mod 2 ^ 32 - 2 ^ 31"

text \<open>The remainder operator \<open>%\<close> of JavaScript takes the sign of the dividend.\<close>

definition jsRem :: "int \<Rightarrow> int \<Rightarrow> int" where
  "jsRem a b = sgn a * (\<bar>a\<bar> mod \<bar>b\<bar>)"

text \<open>
  The loop of \<open>simpleHash\<close> over the code units of the string:
  \<open>hash = ((hash << 5) - hash) + char; hash = hash & hash\<close>.
  The shift produces a 32-bit integer, the subtraction and addition are exact, and
  \<open>hash & hash\<close> brings the sum back to 32 bits.
\<close>

fun hashLoop :: "int \<Rightarrow> int list \<Rightarrow> int" where
  "hashLoop hash [] = hash"
| "hashLoop hash (c # cs) = hashLoop (toInt32 ((toInt32 (hash * 32) - hash) + c)) cs"

definition charCodes :: "string \<Rightarrow> int list" where
  "charCodes str = map of_char str"

definition simpleHash :: "string \<Rightarrow> int" where
  "simpleHash str = \<bar>hashLoop 0 (charCodes str)\<bar>"

definition calculateBasePrice :: "string \<Rightarrow> string \<Rightarrow> real" where
  "calculateBasePrice tIn tOut =
     (let hash = simpleHash (tIn @ tOut)
      in 1.0 + real_of_int (jsRem hash 100) / 100)"

text \<open>
  The quote functions draw one random number for the price variance; it is the
  parameter \<open>u\<close>, a value of \<open>Math.random()\<close> in \<open>[0, 1)\<close>. The draw for the simulated
  network delay does not reach the returned quote.
\<close>

definition getRaydiumQuote :: "string \<Rightarrow> string \<Rightarrow> real \<Rightarrow> real \<Rightarrow> DexQuote" where
  "getRaydiumQuote tIn tOut amount u =
     (let basePrice = calculateBasePrice tIn tOut;
          variance = 0.98 + u * 0.04;
          price' = basePrice * variance;
          fee' = 0.003
      in \<lparr>dex = raydium, price = price', fee = fee',
          estimatedOutput = amount * price' * (1 - fee')\<rparr>)"

definition getMeteorQuote :: "string \<Rightarrow> string \<Rightarrow> real \<Rightarrow> real \<Rightarrow> DexQuote" where
  "getMeteorQuote tIn tOut amount u =
     (let basePrice = calculateBasePrice tIn tOut;
          variance = 0.97 + u * 0.05;
          price' = basePrice * variance;
          fee' = 0.002
      in \<lparr>dex = meteora, price = price', fee = fee',
          estimatedOutput = amount * price' * (1 - fee')\<rparr>)"

record BestQuote =
  best :: DexQuote
  bq_raydium :: DexQuote
  bq_meteora :: DexQuote

definition getBestQuote :: "string \<Rightarrow> string \<Rightarrow> real \<Rightarrow> real \<Rightarrow> real \<Rightarrow> BestQuote" where
  "getBestQuote tIn tOut amount u1 u2 =
     (let raydiumQ = getRaydiumQuote tIn tOut amount u1;
          meteoraQ = getMeteorQuote tIn tOut amount u2;
          bestQ = (if estimatedOutput raydiumQ > estimatedOutput meteoraQ
                   then raydiumQ else meteoraQ)
      in \<lparr>best = bestQ, bq_raydium = raydiumQ, bq_meteora = meteoraQ\<rparr>)"

text \<open>
  The random draws of one \<open>executeSwap\<close> call: the failure draw, the slippage draw and
  the 64 draws of \<open>generateMockTxHash\<close>.
\<close>

record SwapDraws =
  failDraw :: real
  slipDraw :: real
  hashDraws :: "nat \<Rightarrow> real"

definition hexChars :: string where
  "hexChars = ''0123456789abcdef''"

definition generateMockTxHash :: "(nat \<Rightarrow> real) \<Rightarrow> string" where
  "generateMockTxHash draws =
     map (\<lambda>i. hexChars ! nat \<lfloor>draws i * real (length hexChars)\<rfloor>) [0..<64]"

definition dexName :: "Dex \<Rightarrow> string" where
  "dexName d = (case d of raydium \<Rightarrow> ''raydium'' | meteora \<Rightarrow> ''meteora'')"

definition dexUpper :: "Dex \<Rightarrow> string" where
  "dexUpper d = (case d of raydium \<Rightarrow> ''RAYDIUM'' | meteora \<Rightarrow> ''METEORA'')"

text \<open>
  The body of the \<open>try\<close> block of \<open>executeSwap\<close>: \<open>Inl\<close> is the message of the Error it
  throws, \<open>Inr\<close> the result it returns. \<open>order.executedPrice!\<close> of an order without an
  executed price is \<open>undefined\<close> and the products are then \<open>NaN\<close>; the model writes
  \<open>NaN\<close> as \<open>None\<close>.
\<close>

definition executeSwap_try :: "Dex \<Rightarrow> Order \<Rightarrow> SwapDraws \<Rightarrow> string + ExecutionResult" where
  "executeSwap_try d order r =
     (if failDraw r < 0.05 then Inl (dexName d @ '' execution failed: Network timeout'')
      else
        (let executedPrice' =
               map_option (\<lambda>p. p * (1 - slipDraw r * (slippage order / 100)))
                 (executedPrice order);
             outputAmount' = map_option (\<lambda>p. amountIn order * p) executedPrice'
         in Inr \<lparr>success = True,
                 res_txHash = Some (generateMockTxHash (hashDraws r)),
                 res_executedPrice = executedPrice',
                 res_outputAmount = outputAmount',
                 res_error = None\<rparr>))"

definition executeSwap :: "Dex \<Rightarrow> Order \<Rightarrow> SwapDraws \<Rightarrow> ExecutionResult" where
  "executeSwap d order r =
     (case executeSwap_try d order r of
        Inr result \<Rightarrow> result
      | Inl errorMsg \<Rightarrow>
          \<lparr>success = False, res_txHash = None, res_executedPrice = None,
           res_outputAmount = None, res_error = Some errorMsg\<rparr>)"

section \<open>Properties of the router\<close>

lemma toInt32_range: "- (2 ^ 31) \<le> toInt32 x \<and> toInt32 x < 2 ^ 31"
  by (simp add: toInt32_def)

lemma simpleHash_nonneg: "0 \<le> simpleHash str"
  by (simp add: simpleHash_def)

lemma jsRem_nonneg: "0 \<le> a \<Longrightarrow> 0 \<le> jsRem a 100 \<and> jsRem a 100 < 100"
  by (cases "a = 0") (simp_all add: jsRem_def)

lemma calculateBasePrice_bounds:
  "1 \<le> calculateBasePrice tIn tOut \<and> calculateBasePrice tIn tOut < 2"
proof -
  let ?r = "jsRem (simpleHash (tIn @ tOut)) 100"
  have "0 \<le> ?r \<and> ?r < 100"
    using jsRem_nonneg [OF simpleHash_nonneg] .
  then have "0 \<le> real_of_int ?r / 100 \<and> real_of_int ?r / 100 < 1"
    by simp
  then show ?thesis
    by (simp add: calculateBasePrice_def Let_def)
qed


lemma raydium_quote_fields:
  "dex (getRaydiumQuote tIn tOut amount u) = raydium \<and>
   fee (getRaydiumQuote tIn tOut amount u) = 0.003 \<and>
   price (getRaydiumQuote tIn tOut amount u) =
     calculateBasePrice tIn tOut * (0.98 + u * 0.04)"
  by (simp add: getRaydiumQuote_def Let_def)

lemma meteora_quote_fields:
  "dex (getMeteorQuote tIn tOut amount u) = meteora \<and>
   fee (getMeteorQuote tIn tOut amount u) = 0.002 \<and>
   price (getMeteorQuote tIn tOut amount u) =
     calculateBasePrice tIn tOut * (0.97 + u * 0.05)"
  by (simp add: getMeteorQuote_def Let_def)

lemma raydium_price_pos:
  assumes "0 \<le> u"
  shows "0 < price (getRaydiumQuote tIn tOut amount u)"
proof -
  have b: "0 < calculateBasePrice tIn tOut"
    using calculateBasePrice_bounds [of tIn tOut] by linarith
  have "0 < 0.98 + u * 0.04"
    using assms by (simp add: add_pos_nonneg)
  with b show ?thesis
    by (simp add: raydium_quote_fields)
qed

lemma meteora_price_pos:
  assumes "0 \<le> u"
  shows "0 < price (getMeteorQuote tIn tOut amount u)"
proof -
  have b: "0 < calculateBasePrice tIn tOut"
    using calculateBasePrice_bounds [of tIn tOut] by linarith
  have "0 < 0.97 + u * 0.05"
    using assms by (simp add: add_pos_nonneg)
  with b show ?thesis
    by (simp add: meteora_quote_fields)
qed

lemma raydium_output_formula:
  "estimatedOutput (getRaydiumQuote tIn tOut amount u) =
     amount * price (getRaydiumQuote tIn tOut amount u)
       * (1 - fee (getRaydiumQuote tIn tOut amount u))"
  by (simp add: getRaydiumQuote_def Let_def)

lemma meteora_output_formula:
  "estimatedOutput (getMeteorQuote tIn tOut amount u) =
     amount * price (getMeteorQuote tIn tOut amount u)
       * (1 - fee (getMeteorQuote tIn tOut amount u))"
  by (simp add: getMeteorQuote_def Let_def)

text \<open>
  Claim C6. For every token pair, amount and pair of random draws, the best quote
  returned by \<open>getBestQuote\<close> is one of the two per-venue quotes it returns, these are
  the quotes of \<open>getRaydiumQuote\<close> and \<open>getMeteorQuote\<close>, and its estimated output is the
  maximum of their two estimated outputs.
\<close>

theorem getBestQuote_max:
  "estimatedOutput (best (getBestQuote tIn tOut amount u1 u2)) =
     max (estimatedOutput (bq_raydium (getBestQuote tIn tOut amount u1 u2)))
         (estimatedOutput (bq_meteora (getBestQuote tIn tOut amount u1 u2))) \<and>
   (best (getBestQuote tIn tOut amount u1 u2) = bq_raydium (getBestQuote tIn tOut amount u1 u2) \<or>
    best (getBestQuote tIn tOut amount u1 u2) = bq_meteora (getBestQuote tIn tOut amount u1 u2)) \<and>
   bq_raydium (getBestQuote tIn tOut amount u1 u2) = getRaydiumQuote tIn tOut amount u1 \<and>
   bq_meteora (getBestQuote tIn tOut amount u1 u2) = getMeteorQuote tIn tOut amount u2"
proof (cases "estimatedOutput (getRaydiumQuote tIn tOut amount u1) >
              estimatedOutput (getMeteorQuote tIn tOut amount u2)")
  case True
  then have "best (getBestQuote tIn tOut amount u1 u2) = getRaydiumQuote tIn tOut amount u1"
    by (simp add: getBestQuote_def Let_def)
  with True show ?thesis
    by (simp add: getBestQuote_def Let_def max_def)
next
  case False
  then have "best (getBestQuote tIn tOut amount u1 u2) = getMeteorQuote tIn tOut amount u2"
    by (simp add: getBestQuote_def Let_def)
  with False show ?thesis
    by (simp add: getBestQuote_def Let_def max_def)
qed

text \<open>
  Claim C8. For every token pair, every positive \<open>amountIn\<close> and every random draw in
  \<open>[0, 1)\<close>, each per-venue quote has
  \<open>estimatedOutput = amountIn * price * (1 - fee)\<close>, a strictly positive price and a
  strictly positive estimated output.
\<close>

theorem quote_formula_positive:
  assumes "0 < amount" and "0 \<le> u" and "u < 1"
  shows "estimatedOutput (getRaydiumQuote tIn tOut amount u) =
           amount * price (getRaydiumQuote tIn tOut amount u)
             * (1 - fee (getRaydiumQuote tIn tOut amount u)) \<and>
         0 < price (getRaydiumQuote tIn tOut amount u) \<and>
         0 < estimatedOutput (getRaydiumQuote tIn tOut amount u) \<and>
         estimatedOutput (getMeteorQuote tIn tOut amount u) =
           amount * price (getMeteorQuote tIn tOut amount u)
             * (1 - fee (getMeteorQuote tIn tOut amount u)) \<and>
         0 < price (getMeteorQuote tIn tOut amount u) \<and>
         0 < estimatedOutput (getMeteorQuote tIn tOut amount u)"
proof -
  have pr: "0 < price (getRaydiumQuote tIn tOut amount u)"
    using assms(2) by (rule raydium_price_pos)
  have pm: "0 < price (getMeteorQuote tIn tOut amount u)"
    using assms(2) by (rule meteora_price_pos)
  have er: "0 < estimatedOutput (getRaydiumQuote tIn tOut amount u)"
    using pr assms(1) by (simp add: raydium_output_formula raydium_quote_fields)
  have em: "0 < estimatedOutput (getMeteorQuote tIn tOut amount u)"
    using pm assms(1) by (simp add: meteora_output_formula meteora_quote_fields)
  show ?thesis
    using pr pm er em raydium_output_formula meteora_output_formula by blast
qed

theorem quote_formula_positive_witness:
  "(0::real) < 100 \<and> (0::real) \<le> 1 / 2 \<and> (1::real) / 2 < 1 \<and>
   price (getRaydiumQuote ''SOL'' ''USDC'' 100 (1 / 2)) = 107 / 100 \<and>
   estimatedOutput (getRaydiumQuote ''SOL'' ''USDC'' 100 (1 / 2)) =
     100 * price (getRaydiumQuote ''SOL'' ''USDC'' 100 (1 / 2))
       * (1 - fee (getRaydiumQuote ''SOL'' ''USDC'' 100 (1 / 2))) \<and>
   0 < price (getRaydiumQuote ''SOL'' ''USDC'' 100 (1 / 2)) \<and>
   0 < estimatedOutput (getRaydiumQuote ''SOL'' ''USDC'' 100 (1 / 2)) \<and>
   0 < price (getMeteorQuote ''SOL'' ''USDC'' 100 (1 / 2)) \<and>
   0 < estimatedOutput (getMeteorQuote ''SOL'' ''USDC'' 100 (1 / 2))"
proof -
  have h1: "(0::real) < 100" and h2: "(0::real) \<le> 1 / 2" and h3: "(1::real) / 2 < 1"
    by simp_all
  have p: "price (getRaydiumQuote ''SOL'' ''USDC'' 100 (1 / 2)) = 107 / 100"
    by (simp add: getRaydiumQuote_def Let_def calculateBasePrice_def jsRem_def
        simpleHash_def charCodes_def toInt32_def)
  show ?thesis
    using quote_formula_positive [OF h1 h2 h3, of "''SOL''" "''USDC''"] p h1 h2 h3
    by blast
qed

text \<open>
  Claim C9. \<open>executeSwap\<close> turns every failure of its body into a returned result: when
  the body throws an Error with message \<open>e\<close>, the call returns
  \<open>{success: false, error: e}\<close>; when the body returns, that result is returned and has
  \<open>success = true\<close>. So the success flag is false exactly on the failures of the body,
  for every venue, order and random draws; no case of the call is an exception.
\<close>

theorem executeSwap_never_throws:
  "(case executeSwap_try d order r of
      Inl e \<Rightarrow> executeSwap d order r =
                 \<lparr>success = False, res_txHash = None, res_executedPrice = None,
                  res_outputAmount = None, res_error = Some e\<rparr>
    | Inr res \<Rightarrow> executeSwap d order r = res \<and> success res \<and> res_error res = None) \<and>
   success (executeSwap d order r) = (\<not> failDraw r < 0.05) \<and>
   (res_error (executeSwap d order r) = None) = success (executeSwap d order r)"
proof (cases "failDraw r < 0.05")
  case True
  then show ?thesis
    by (simp add: executeSwap_def executeSwap_try_def)
next
  case False
  then show ?thesis
    by (simp add: executeSwap_def executeSwap_try_def Let_def)
qed

section \<open>Status events and their subscribers\<close>

record UpdateData =
  data_selectedDex :: "string option"
  data_raydiumQuote :: "real option"
  data_meteoraQuote :: "real option"
  data_executedPrice :: "real option"
  data_txHash :: "string option"
  data_error :: "string option"

record OrderStatusUpdate =
  upd_orderId :: string
  upd_status :: OrderStatus
  upd_message :: "string option"
  upd_data :: "UpdateData option"

definition noData :: UpdateData where
  "noData = \<lparr>data_selectedDex = None, data_raydiumQuote = None, data_meteoraQuote = None,
             data_executedPrice = None, data_txHash = None, data_error = None\<rparr>"

text \<open>
  A registered listener of the EventEmitter: the event name it listens to, its identity
  (a fresh closure per subscription) and its callback. A callback returns \<open>None\<close> when it
  returns normally and \<open>Some e\<close> when it throws an Error with message \<open>e\<close>.
\<close>

record Listener =
  listener_id :: nat
  eventName :: string
  callback :: "OrderStatusUpdate \<Rightarrow> string option"

text \<open>
  History of the run, kept beside the program state: \<open>published\<close> has one entry per call
  of \<open>emitStatusUpdate\<close> with the update and what a reader would find at that moment
  (the status field of the order object and the status of the stored copy);
  \<open>delivered\<close> has one entry per callback invocation.
\<close>

record Publication =
  pub_update :: OrderStatusUpdate
  pub_objectStatus :: OrderStatus
  pub_storeStatus :: "OrderStatus option"

text \<open>
  The state shared by the services: the \<open>orders\<close> map of \<open>inMemoryDb\<close>, the listeners
  registered on \<open>executionService\<close> in the order of their registration, and the history.
\<close>

record World =
  orders :: "string \<rightharpoonup> Order"
  listeners :: "Listener list"
  nextListener :: nat
  published :: "Publication list"
  delivered :: "(nat \<times> OrderStatusUpdate) list"

text \<open>
  \<open>EventEmitter.emit\<close> of Node.js calls the listeners registered for the event
  synchronously, in the order of registration; an exception thrown by a listener is not
  caught by \<open>emit\<close>: it propagates to the caller and the listeners after it are not called.
\<close>

fun callListeners ::
  "Listener list \<Rightarrow> OrderStatusUpdate \<Rightarrow> (nat \<times> OrderStatusUpdate) list
     \<Rightarrow> string option \<times> (nat \<times> OrderStatusUpdate) list" where
  "callListeners [] u calls = (None, calls)"
| "callListeners (l # ls) u calls =
     (case callback l u of
        Some e \<Rightarrow> (Some e, calls @ [(listener_id l, u)])
      | None \<Rightarrow> callListeners ls u (calls @ [(listener_id l, u)]))"

definition listenersOf :: "string \<Rightarrow> Listener list \<Rightarrow> Listener list" where
  "listenersOf name ls = filter (\<lambda>l. eventName l = name) ls"

definition emit :: "string \<Rightarrow> OrderStatusUpdate \<Rightarrow> World \<Rightarrow> string option \<times> World" where
  "emit name u w =
     (case callListeners (listenersOf name (listeners w)) u (delivered w) of
        (thrown, calls) \<Rightarrow> (thrown, w\<lparr>delivered := calls\<rparr>))"

definition orderEvent :: "string \<Rightarrow> string" where
  "orderEvent orderId = ''order:'' @ orderId"

definition subscribeToOrder ::
  "string \<Rightarrow> (OrderStatusUpdate \<Rightarrow> string option) \<Rightarrow> World \<Rightarrow> nat \<times> World" where
  "subscribeToOrder orderId cb w =
     (let listener = \<lparr>listener_id = nextListener w, eventName = orderEvent orderId,
                       callback = cb\<rparr>
      in (nextListener w,
          w\<lparr>listeners := listeners w @ [listener], nextListener := Suc (nextListener w)\<rparr>))"

definition unsubscribe :: "nat \<Rightarrow> World \<Rightarrow> World" where
  "unsubscribe h w = w\<lparr>listeners := filter (\<lambda>l. listener_id l \<noteq> h) (listeners w)\<rparr>"

section \<open>InMemoryDatabase\<close>

definition createOrder :: "Order \<Rightarrow> World \<Rightarrow> World" where
  "createOrder order w = w\<lparr>orders := (orders w)(order_id order \<mapsto> order)\<rparr>"

definition updateOrder :: "string \<Rightarrow> (Order \<Rightarrow> Order) \<Rightarrow> World \<Rightarrow> string option \<times> World" where
  "updateOrder orderId updates w =
     (case orders w orderId of
        None \<Rightarrow> (Some (''Order '' @ orderId @ '' not found''), w)
      | Some order \<Rightarrow> (None, w\<lparr>orders := (orders w)(orderId \<mapsto> updates order)\<rparr>))"

section \<open>ExecutionService\<close>

type_synonym proc = "Order \<times> World"
type_synonym step = "proc \<Rightarrow> string option \<times> proc"

text \<open>
  The body of an \<open>async\<close> function as a sequence of steps on the pair of the order object
  and the world. A step returns \<open>Some e\<close> when it throws an Error with message \<open>e\<close>, and
  the steps after it are skipped. The suspension points of \<open>processOrder\<close> are not
  modelled: one call runs to its end, since it reads and writes only its own order
  object, the stored copy under its id and the history.
\<close>

definition andThen :: "step \<Rightarrow> step \<Rightarrow> step" where
  "andThen f g p = (case f p of (Some e, p') \<Rightarrow> (Some e, p') | (None, p') \<Rightarrow> g p')"

definition emitStatusUpdate ::
  "OrderStatus \<Rightarrow> string option \<Rightarrow> UpdateData option \<Rightarrow> step" where
  "emitStatusUpdate st msg dat p =
     (case p of (order, w) \<Rightarrow>
        let statusUpdate = \<lparr>upd_orderId = order_id order, upd_status = st,
                            upd_message = msg, upd_data = dat\<rparr>;
            seen = \<lparr>pub_update = statusUpdate, pub_objectStatus = status order,
                    pub_storeStatus = map_option status (orders w (order_id order))\<rparr>;
            w0 = w\<lparr>published := published w @ [seen]\<rparr>
        in (case emit (orderEvent (order_id order)) statusUpdate w0 of
              (Some e, w1) \<Rightarrow> (Some e, (order, w1))
            | (None, w1) \<Rightarrow>
                (case emit ''order:update'' statusUpdate w1 of
                   (thrown, w2) \<Rightarrow> (thrown, (order, w2)))))"

definition updateOrderStatus ::
  "OrderStatus \<Rightarrow> string option \<Rightarrow> UpdateData option \<Rightarrow> step" where
  "updateOrderStatus st msg dat p =
     (case p of (order, w) \<Rightarrow> emitStatusUpdate st msg dat (order\<lparr>status := st\<rparr>, w))"

text \<open>
  The statements of \<open>processOrder\<close> between its status updates: \<open>assign\<close> is a group of
  assignments to fields of the order object, \<open>dbUpdate\<close> is
  \<open>await inMemoryDb.updateOrder(order.id, updates)\<close>, with the partial order \<open>updates\<close>
  as the function that overwrites its fields.
\<close>

definition assign :: "(Order \<Rightarrow> Order) \<Rightarrow> step" where
  "assign f p = (case p of (order, w) \<Rightarrow> (None, (f order, w)))"

definition dbUpdate :: "(Order \<Rightarrow> Order) \<Rightarrow> step" where
  "dbUpdate updates p =
     (case p of (order, w) \<Rightarrow>
        (case updateOrder (order_id order) updates w of (thrown, w') \<Rightarrow> (thrown, (order, w'))))"

text \<open>
  The random draws of one \<open>processOrder\<close> call: the variance draws of the two quotes and
  the draws of \<open>executeSwap\<close>.
\<close>

record Draws =
  raydiumDraw :: real
  meteoraDraw :: real
  swapDraws :: SwapDraws

text \<open>
  The \<open>try\<close> block of \<open>processOrder\<close>, written in three parts: \<open>processOrder_try\<close> up to
  the call of \<open>getBestQuote\<close>, \<open>routed\<close> from its result to the submitted status, and
  \<open>settle\<close> from the call of \<open>executeSwap\<close> to the end. \<open>delay(300)\<close> only passes time.
  \<open>processOrder_catch\<close> is the \<open>catch\<close> block; it throws the caught error again, unless
  one of its own statements throws first.
\<close>

definition settle :: "Dex \<Rightarrow> SwapDraws \<Rightarrow> step" where
  "settle d r p =
     (case p of (order, w) \<Rightarrow>
        let executionResult = executeSwap d order r
        in if \<not> success executionResult
           then (Some (case res_error executionResult of
                         None \<Rightarrow> ''Execution failed''
                       | Some e \<Rightarrow> if e = [] then ''Execution failed'' else e),
                 (order, w))
           else andThen
                  (updateOrderStatus CONFIRMED (Some ''Transaction successful'')
                     (Some (noData\<lparr>data_txHash := res_txHash executionResult,
                                   data_executedPrice := res_executedPrice executionResult\<rparr>)))
                  (dbUpdate (\<lambda>rec. rec\<lparr>status := CONFIRMED,
                                     txHash := res_txHash executionResult,
                                     executedPrice := res_executedPrice executionResult,
                                     outputAmount := res_outputAmount executionResult\<rparr>))
                  (order, w))"

definition routed :: "BestQuote \<Rightarrow> SwapDraws \<Rightarrow> step" where
  "routed q r =
     andThen (assign (\<lambda>rec. rec\<lparr>selectedDex := Some (dex (best q)),
                              raydiumQuote := Some (price (bq_raydium q)),
                              meteoraQuote := Some (price (bq_meteora q)),
                              executedPrice := Some (price (best q))\<rparr>))
    (andThen (dbUpdate (\<lambda>rec. rec\<lparr>selectedDex := Some (dex (best q)),
                                raydiumQuote := Some (price (bq_raydium q)),
                                meteoraQuote := Some (price (bq_meteora q)),
                                executedPrice := Some (price (best q))\<rparr>))
    (andThen (emitStatusUpdate ROUTING (Some (''Best route: '' @ dexUpper (dex (best q))))
                (Some (noData\<lparr>data_selectedDex := Some (dexName (dex (best q))),
                              data_raydiumQuote := Some (price (bq_raydium q)),
                              data_meteoraQuote := Some (price (bq_meteora q))\<rparr>)))
    (andThen (updateOrderStatus BUILDING (Some ''Creating transaction'') None)
    (andThen (updateOrderStatus SUBMITTED
                (Some (''Transaction sent to '' @ dexUpper (dex (best q)))) None)
             (settle (dex (best q)) r)))))"

definition processOrder_try :: "Draws \<Rightarrow> step" where
  "processOrder_try r =
     andThen (updateOrderStatus PENDING (Some ''Order received and queued'') None)
    (andThen (updateOrderStatus ROUTING (Some ''Comparing DEX prices'') None)
       (\<lambda>p. routed (getBestQuote (tokenIn (fst p)) (tokenOut (fst p)) (amountIn (fst p))
                       (raydiumDraw r) (meteoraDraw r))
                    (swapDraws r) p))"

definition processOrder_catch :: "string \<Rightarrow> step" where
  "processOrder_catch errorMessage p =
     (case andThen
             (updateOrderStatus FAILED (Some ''Execution failed'')
                (Some (noData\<lparr>data_error := Some errorMessage\<rparr>)))
             (dbUpdate (\<lambda>rec. rec\<lparr>status := FAILED, order_error := Some errorMessage\<rparr>)) p of
        (None, p') \<Rightarrow> (Some errorMessage, p')
      | (Some e, p') \<Rightarrow> (Some e, p'))"

definition processOrder :: "Draws \<Rightarrow> step" where
  "processOrder r p =
     (case processOrder_try r p of
        (None, p') \<Rightarrow> (None, p')
      | (Some errorMessage, p') \<Rightarrow> processOrder_catch errorMessage p')"

text \<open>
  What one call added to the history: the publications made between the world \<open>w\<close>
  before it and the world \<open>w'\<close> after it, and their statuses.
\<close>

definition pubStatus :: "Publication \<Rightarrow> OrderStatus" where
  "pubStatus x = upd_status (pub_update x)"

definition newPublications :: "World \<Rightarrow> World \<Rightarrow> Publication list" where
  "newPublications w w' = drop (length (published w)) (published w')"

definition statusesFrom :: "World \<Rightarrow> World \<Rightarrow> OrderStatus list" where
  "statusesFrom w w' = map pubStatus (newPublications w w')"

section \<open>Properties of the execution service\<close>

text \<open>
  The listeners that one \<open>emit\<close> calls are those up to and including the first one that
  throws; \<open>firstThrow\<close> is what that one throws.
\<close>

definition reached :: "OrderStatusUpdate \<Rightarrow> Listener list \<Rightarrow> Listener list" where
  "reached u ls =
     takeWhile (\<lambda>l. callback l u = None) ls @ take 1 (dropWhile (\<lambda>l. callback l u = None) ls)"

definition firstThrow :: "OrderStatusUpdate \<Rightarrow> Listener list \<Rightarrow> string option" where
  "firstThrow u ls =
     (case dropWhile (\<lambda>l. callback l u = None) ls of [] \<Rightarrow> None | l # _ \<Rightarrow> callback l u)"

lemma callListeners_eq:
  "callListeners ls u calls =
     (firstThrow u ls, calls @ map (\<lambda>l. (listener_id l, u)) (reached u ls))"
  by (induction ls arbitrary: calls) (auto simp: reached_def firstThrow_def)

lemma emit_eq:
  "emit name u w =
     (firstThrow u (listenersOf name (listeners w)),
      w\<lparr>delivered := delivered w @
           map (\<lambda>l. (listener_id l, u)) (reached u (listenersOf name (listeners w)))\<rparr>)"
  by (simp add: emit_def callListeners_eq)

definition publishThrows :: "Listener list \<Rightarrow> OrderStatusUpdate \<Rightarrow> string option" where
  "publishThrows ls u =
     (case firstThrow u (listenersOf (orderEvent (upd_orderId u)) ls) of
        Some e \<Rightarrow> Some e
      | None \<Rightarrow> firstThrow u (listenersOf ''order:update'' ls))"

definition publishCalls :: "Listener list \<Rightarrow> OrderStatusUpdate \<Rightarrow> (nat \<times> OrderStatusUpdate) list" where
  "publishCalls ls u =
     map (\<lambda>l. (listener_id l, u)) (reached u (listenersOf (orderEvent (upd_orderId u)) ls)) @
     (case firstThrow u (listenersOf (orderEvent (upd_orderId u)) ls) of
        Some e \<Rightarrow> []
      | None \<Rightarrow> map (\<lambda>l. (listener_id l, u)) (reached u (listenersOf ''order:update'' ls)))"

definition mkUpdate :: "Order \<Rightarrow> OrderStatus \<Rightarrow> string option \<Rightarrow> UpdateData option \<Rightarrow> OrderStatusUpdate" where
  "mkUpdate order st msg dat = \<lparr>upd_orderId = order_id order, upd_status = st,
                            upd_message = msg, upd_data = dat\<rparr>"

definition mkPub :: "Order \<Rightarrow> World \<Rightarrow> OrderStatus \<Rightarrow> string option \<Rightarrow> UpdateData option \<Rightarrow> Publication" where
  "mkPub order w st msg dat = \<lparr>pub_update = mkUpdate order st msg dat, pub_objectStatus = status order,
                    pub_storeStatus = map_option status (orders w (order_id order))\<rparr>"

lemma emitStatusUpdate_eq:
  "emitStatusUpdate st msg dat (order, w) =
     (publishThrows (listeners w) (mkUpdate order st msg dat),
      (order, w\<lparr>published := published w @ [mkPub order w st msg dat],
                delivered := delivered w @ publishCalls (listeners w) (mkUpdate order st msg dat)\<rparr>))"
  by (auto simp: emitStatusUpdate_def Let_def emit_eq publishThrows_def publishCalls_def mkUpdate_def mkPub_def split: option.splits)

lemma updateOrderStatus_eq:
  "updateOrderStatus st msg dat (order, w) =
     (publishThrows (listeners w) (mkUpdate order st msg dat),
      (order\<lparr>status := st\<rparr>,
       w\<lparr>published := published w @ [mkPub (order\<lparr>status := st\<rparr>) w st msg dat],
         delivered := delivered w @ publishCalls (listeners w) (mkUpdate order st msg dat)\<rparr>))"
  by (simp add: updateOrderStatus_def emitStatusUpdate_eq mkUpdate_def)

lemma mkPub_simps [simp]:
  "upd_status (pub_update (mkPub order w st msg dat)) = st"
  "upd_orderId (pub_update (mkPub order w st msg dat)) = order_id order"
  "pub_objectStatus (mkPub order w st msg dat) = status order"
  "pub_storeStatus (mkPub order w st msg dat) = map_option status (orders w (order_id order))"
  by (simp_all add: mkPub_def mkUpdate_def)

text \<open>
  A specification of a step. From a state satisfying \<open>P\<close>, the step appends publications
  that all satisfy \<open>G\<close>; when it returns, their statuses are \<open>ok\<close> and \<open>Q\<close> holds; when
  it throws, their statuses are one of \<open>bad\<close> and \<open>E\<close> holds.
\<close>

definition hoare ::
  "(proc \<Rightarrow> bool) \<Rightarrow> step \<Rightarrow> (Publication \<Rightarrow> bool) \<Rightarrow> OrderStatus list \<Rightarrow> (proc \<Rightarrow> bool)
     \<Rightarrow> OrderStatus list set \<Rightarrow> (proc \<Rightarrow> bool) \<Rightarrow> bool" where
  "hoare P f G ok Q bad E =
     (\<forall>p. P p \<longrightarrow>
        (\<exists>new. published (snd (snd (f p))) = published (snd p) @ new \<and> (\<forall>x\<in>set new. G x) \<and>
           (fst (f p) = None \<longrightarrow> map pubStatus new = ok \<and> Q (snd (f p))) \<and>
           (fst (f p) \<noteq> None \<longrightarrow> map pubStatus new \<in> bad \<and> E (snd (f p)))))"

lemma hoareI:
  assumes "\<And>p r p'. P p \<Longrightarrow> f p = (r, p') \<Longrightarrow>
             \<exists>new. published (snd p') = published (snd p) @ new \<and> (\<forall>x\<in>set new. G x) \<and>
               (r = None \<longrightarrow> map pubStatus new = ok \<and> Q p') \<and>
               (r \<noteq> None \<longrightarrow> map pubStatus new \<in> bad \<and> E p')"
  shows "hoare P f G ok Q bad E"
  unfolding hoare_def
proof (intro allI impI)
  fix p assume "P p"
  from assms [OF this, of "fst (f p)" "snd (f p)"]
  show "\<exists>new. published (snd (snd (f p))) = published (snd p) @ new \<and> (\<forall>x\<in>set new. G x) \<and>
           (fst (f p) = None \<longrightarrow> map pubStatus new = ok \<and> Q (snd (f p))) \<and>
           (fst (f p) \<noteq> None \<longrightarrow> map pubStatus new \<in> bad \<and> E (snd (f p)))"
    by simp
qed

lemma hoareD:
  assumes "hoare P f G ok Q bad E" and "P p" and "f p = (r, p')"
  obtains new where "published (snd p') = published (snd p) @ new"
    and "\<forall>x\<in>set new. G x"
    and "r = None \<Longrightarrow> map pubStatus new = ok \<and> Q p'"
    and "r \<noteq> None \<Longrightarrow> map pubStatus new \<in> bad \<and> E p'"
proof -
  from assms(1,2) have "\<exists>new. published (snd (snd (f p))) = published (snd p) @ new \<and> (\<forall>x\<in>set new. G x) \<and>
           (fst (f p) = None \<longrightarrow> map pubStatus new = ok \<and> Q (snd (f p))) \<and>
           (fst (f p) \<noteq> None \<longrightarrow> map pubStatus new \<in> bad \<and> E (snd (f p)))"
    unfolding hoare_def by blast
  then obtain new where "published (snd p') = published (snd p) @ new"
    and "\<forall>x\<in>set new. G x"
    and "r = None \<longrightarrow> map pubStatus new = ok \<and> Q p'"
    and "r \<noteq> None \<longrightarrow> map pubStatus new \<in> bad \<and> E p'"
    unfolding assms(3) fst_conv snd_conv by blast
  then show thesis
    using that by blast
qed

lemma hoare_andThen:
  assumes f: "hoare P f G ok1 Q bad1 E"
    and g: "hoare Q g G ok2 R bad2 E"
  shows "hoare P (andThen f g) G (ok1 @ ok2) R (bad1 \<union> (\<lambda>t. ok1 @ t) ` bad2) E"
proof (rule hoareI)
  fix p r p' assume P: "P p" and run: "andThen f g p = (r, p')"
  obtain r1 p1 where fp: "f p = (r1, p1)" by (cases "f p")
  from f P fp obtain new1 where n1: "published (snd p1) = published (snd p) @ new1"
    and g1: "\<forall>x\<in>set new1. G x"
    and ok1: "r1 = None \<Longrightarrow> map pubStatus new1 = ok1 \<and> Q p1"
    and bad1: "r1 \<noteq> None \<Longrightarrow> map pubStatus new1 \<in> bad1 \<and> E p1"
    by (rule hoareD) (rule that)
  show "\<exists>new. published (snd p') = published (snd p) @ new \<and> (\<forall>x\<in>set new. G x) \<and>
           (r = None \<longrightarrow> map pubStatus new = ok1 @ ok2 \<and> R p') \<and>
           (r \<noteq> None \<longrightarrow> map pubStatus new \<in> bad1 \<union> (\<lambda>t. ok1 @ t) ` bad2 \<and> E p')"
  proof (cases r1)
    case (Some e)
    with run have a: "r = Some e" "p' = p1" by (simp_all add: andThen_def fp)
    show ?thesis
      using n1 g1 bad1 Some by (intro exI [of _ new1]) (simp add: a)
  next
    case None
    with run have gp: "g p1 = (r, p')" by (simp add: andThen_def fp)
    from ok1 [OF None] have Q: "Q p1" and m1: "map pubStatus new1 = ok1" by simp_all
    from g Q gp obtain new2 where n2: "published (snd p') = published (snd p1) @ new2"
      and g2: "\<forall>x\<in>set new2. G x"
      and ok2: "r = None \<Longrightarrow> map pubStatus new2 = ok2 \<and> R p'"
      and bad2: "r \<noteq> None \<Longrightarrow> map pubStatus new2 \<in> bad2 \<and> E p'"
      by (rule hoareD) (rule that)
    show ?thesis
      using n1 n2 g1 g2 ok2 bad2 m1 by (intro exI [of _ "new1 @ new2"]) auto
  qed
qed

lemma hoare_weaken:
  assumes h: "hoare P f G ok Q bad E"
    and P: "\<And>p. P' p \<Longrightarrow> P p" and Q: "\<And>p. Q p \<Longrightarrow> Q' p" and E: "\<And>p. E p \<Longrightarrow> E' p"
    and o: "ok = ok'" and b: "bad \<subseteq> bad'"
  shows "hoare P' f G ok' Q' bad' E'"
proof (rule hoareI)
  fix p r p' assume "P' p" and fp: "f p = (r, p')"
  then have Pp: "P p" by (simp add: P)
  from h Pp fp obtain new where n: "published (snd p') = published (snd p) @ new"
    and g: "\<forall>x\<in>set new. G x"
    and ok: "r = None \<Longrightarrow> map pubStatus new = ok \<and> Q p'"
    and bad: "r \<noteq> None \<Longrightarrow> map pubStatus new \<in> bad \<and> E p'"
    by (rule hoareD) (rule that)
  show "\<exists>new. published (snd p') = published (snd p) @ new \<and> (\<forall>x\<in>set new. G x) \<and>
           (r = None \<longrightarrow> map pubStatus new = ok' \<and> Q' p') \<and>
           (r \<noteq> None \<longrightarrow> map pubStatus new \<in> bad' \<and> E' p')"
    using n g ok bad Q E b o by (intro exI [of _ new]) auto
qed

lemma hoare_updateOrderStatus:
  assumes "\<And>order w. P (order, w) \<Longrightarrow> G (mkPub (order\<lparr>status := st\<rparr>) w st m d)"
    and "\<And>order w x y. P (order, w) \<Longrightarrow>
           Q (order\<lparr>status := st\<rparr>, w\<lparr>published := x, delivered := y\<rparr>) \<and>
           E (order\<lparr>status := st\<rparr>, w\<lparr>published := x, delivered := y\<rparr>)"
  shows "hoare P (updateOrderStatus st m d) G [st] Q {[st]} E"
proof (rule hoareI)
  fix p :: proc and r p' assume P: "P p" and run: "updateOrderStatus st m d p = (r, p')"
  obtain order w where p: "p = (order, w)" by (cases p)
  show "\<exists>new. published (snd p') = published (snd p) @ new \<and> (\<forall>x\<in>set new. G x) \<and>
           (r = None \<longrightarrow> map pubStatus new = [st] \<and> Q p') \<and>
           (r \<noteq> None \<longrightarrow> map pubStatus new \<in> {[st]} \<and> E p')"
    using assms(1) [of order w] assms(2) [of order w] P run
    by (intro exI [of _ "[mkPub (order\<lparr>status := st\<rparr>) w st m d]"])
       (auto simp: p updateOrderStatus_eq pubStatus_def)
qed

lemma hoare_emitStatusUpdate:
  assumes "\<And>order w. P (order, w) \<Longrightarrow> G (mkPub order w st m d)"
    and "\<And>order w x y. P (order, w) \<Longrightarrow>
           Q (order, w\<lparr>published := x, delivered := y\<rparr>) \<and>
           E (order, w\<lparr>published := x, delivered := y\<rparr>)"
  shows "hoare P (emitStatusUpdate st m d) G [st] Q {[st]} E"
proof (rule hoareI)
  fix p :: proc and r p' assume P: "P p" and run: "emitStatusUpdate st m d p = (r, p')"
  obtain order w where p: "p = (order, w)" by (cases p)
  show "\<exists>new. published (snd p') = published (snd p) @ new \<and> (\<forall>x\<in>set new. G x) \<and>
           (r = None \<longrightarrow> map pubStatus new = [st] \<and> Q p') \<and>
           (r \<noteq> None \<longrightarrow> map pubStatus new \<in> {[st]} \<and> E p')"
    using assms(1) [of order w] assms(2) [of order w] P run
    by (intro exI [of _ "[mkPub order w st m d]"])
       (auto simp: p emitStatusUpdate_eq pubStatus_def)
qed

lemma hoare_assign:
  assumes "\<And>order w. P (order, w) \<Longrightarrow> Q (f order, w)"
  shows "hoare P (assign f) G [] Q {} E"
  using assms by (auto simp: hoare_def assign_def)

lemma hoare_dbUpdate:
  assumes "\<And>order w stored. P (order, w) \<Longrightarrow> orders w (order_id order) = Some stored \<Longrightarrow>
             Q (order, w\<lparr>orders := (orders w)(order_id order \<mapsto> u stored)\<rparr>)"
    and "\<And>order w. P (order, w) \<Longrightarrow> orders w (order_id order) = None \<Longrightarrow> E (order, w)"
  shows "hoare P (dbUpdate u) G [] Q {[]} E"
  using assms by (auto simp: hoare_def dbUpdate_def updateOrder_def split: option.splits)

definition keeps :: "string \<Rightarrow> OrderStatus option \<Rightarrow> proc \<Rightarrow> bool" where
  "keeps i S0 p = (order_id (fst p) = i \<and> map_option status (orders (snd p) i) = S0)"

definition routingNow :: "string \<Rightarrow> OrderStatus option \<Rightarrow> proc \<Rightarrow> bool" where
  "routingNow i S0 p = (keeps i S0 p \<and> status (fst p) = ROUTING)"

definition seen :: "string \<Rightarrow> OrderStatus option \<Rightarrow> Publication \<Rightarrow> bool" where
  "seen i S0 x =
     (upd_orderId (pub_update x) = i \<and> pub_objectStatus x = pubStatus x \<and> pub_storeStatus x = S0)"

definition anyProc :: "proc \<Rightarrow> bool" where
  "anyProc p = True"

lemma hoare_param:
  assumes "\<And>q. hoare P (h q) G ok Q bad E"
  shows "hoare P (\<lambda>p. h (k p) p) G ok Q bad E"
  using assms by (simp add: hoare_def)

lemma uos_keeps:
  "hoare (keeps i S0) (updateOrderStatus st m d) (seen i S0) [st] (keeps i S0) {[st]} (keeps i S0)"
  by (rule hoare_updateOrderStatus) (simp_all add: keeps_def seen_def pubStatus_def)

lemma uos_routing:
  "hoare (keeps i S0) (updateOrderStatus ROUTING m d) (seen i S0) [ROUTING]
     (routingNow i S0) {[ROUTING]} (keeps i S0)"
  by (rule hoare_updateOrderStatus) (simp_all add: keeps_def routingNow_def seen_def pubStatus_def)

lemma emit_routing:
  "hoare (routingNow i S0) (emitStatusUpdate ROUTING m d) (seen i S0) [ROUTING]
     (keeps i S0) {[ROUTING]} (keeps i S0)"
  by (rule hoare_emitStatusUpdate) (simp_all add: keeps_def routingNow_def seen_def pubStatus_def)

lemma assign_routing:
  "hoare (routingNow i S0)
     (assign (\<lambda>rec. rec\<lparr>selectedDex := a, raydiumQuote := b, meteoraQuote := c, executedPrice := d\<rparr>))
     (seen i S0) [] (routingNow i S0) {} (keeps i S0)"
  by (rule hoare_assign) (simp add: keeps_def routingNow_def)

lemma dbUpdate_routing:
  "hoare (routingNow i S0)
     (dbUpdate (\<lambda>rec. rec\<lparr>selectedDex := a, raydiumQuote := b, meteoraQuote := c, executedPrice := d\<rparr>))
     (seen i S0) [] (routingNow i S0) {[]} (keeps i S0)"
  by (rule hoare_dbUpdate) (auto simp: keeps_def routingNow_def)

lemma dbUpdate_final:
  "hoare (keeps i S0) (dbUpdate u) (seen i S0) [] anyProc {[]} (keeps i S0)"
  by (rule hoare_dbUpdate) (auto simp: keeps_def anyProc_def)

lemma settle_hoare:
  "hoare (keeps i S0) (settle d r) (seen i S0) [CONFIRMED] anyProc {[], [CONFIRMED]} (keeps i S0)"
proof (rule hoareI)
  fix p :: proc and res p'
  assume P: "keeps i S0 p" and run: "settle d r p = (res, p')"
  obtain order w where p: "p = (order, w)" by (cases p)
  let ?x = "executeSwap d order r"
  let ?A = "updateOrderStatus CONFIRMED (Some ''Transaction successful'')
              (Some (noData\<lparr>data_txHash := res_txHash ?x, data_executedPrice := res_executedPrice ?x\<rparr>))"
  let ?B = "dbUpdate (\<lambda>rec. rec\<lparr>status := CONFIRMED, txHash := res_txHash ?x,
              executedPrice := res_executedPrice ?x, outputAmount := res_outputAmount ?x\<rparr>)"
  show "\<exists>new. published (snd p') = published (snd p) @ new \<and> (\<forall>x\<in>set new. seen i S0 x) \<and>
           (res = None \<longrightarrow> map pubStatus new = [CONFIRMED] \<and> anyProc p') \<and>
           (res \<noteq> None \<longrightarrow> map pubStatus new \<in> {[], [CONFIRMED]} \<and> keeps i S0 p')"
  proof (cases "success ?x")
    case False
    with run have "res \<noteq> None" "p' = p" by (auto simp: settle_def p Let_def)
    with P show ?thesis by (intro exI [of _ "[]"]) simp
  next
    case True
    with run have ab: "andThen ?A ?B p = (res, p')" by (simp add: settle_def p Let_def)
    have "hoare (keeps i S0) (andThen ?A ?B) (seen i S0) ([CONFIRMED] @ []) anyProc
            ({[CONFIRMED]} \<union> (\<lambda>t. [CONFIRMED] @ t) ` {[]}) (keeps i S0)"
      by (rule hoare_andThen [OF uos_keeps dbUpdate_final])
    from this P ab obtain new where "published (snd p') = published (snd p) @ new"
      and "\<forall>x\<in>set new. seen i S0 x"
      and "res = None \<Longrightarrow> map pubStatus new = [CONFIRMED] @ [] \<and> anyProc p'"
      and "res \<noteq> None \<Longrightarrow> map pubStatus new \<in> {[CONFIRMED]} \<union> (\<lambda>t. [CONFIRMED] @ t) ` {[]} \<and> keeps i S0 p'"
      by (rule hoareD) (rule that)
    then show ?thesis by (intro exI [of _ new]) auto
  qed
qed

lemma routed_hoare:
  "hoare (routingNow i S0) (routed q r) (seen i S0) [ROUTING, BUILDING, SUBMITTED, CONFIRMED] anyProc
     {[], [ROUTING], [ROUTING, BUILDING], [ROUTING, BUILDING, SUBMITTED],
      [ROUTING, BUILDING, SUBMITTED, CONFIRMED]} (keeps i S0)"
proof -
  note chain =
    hoare_andThen [OF assign_routing
      hoare_andThen [OF dbUpdate_routing
        hoare_andThen [OF emit_routing
          hoare_andThen [OF uos_keeps hoare_andThen [OF uos_keeps settle_hoare]]]]]
  show ?thesis
    unfolding routed_def
    by (rule hoare_weaken [OF chain]) auto
qed

lemma try_hoare:
  "hoare (keeps i S0) (processOrder_try r) (seen i S0)
     [PENDING, ROUTING, ROUTING, BUILDING, SUBMITTED, CONFIRMED] anyProc
     {[PENDING], [PENDING, ROUTING], [PENDING, ROUTING, ROUTING],
      [PENDING, ROUTING, ROUTING, BUILDING], [PENDING, ROUTING, ROUTING, BUILDING, SUBMITTED],
      [PENDING, ROUTING, ROUTING, BUILDING, SUBMITTED, CONFIRMED]} (keeps i S0)"
proof -
  note chain =
    hoare_andThen [OF uos_keeps hoare_andThen [OF uos_routing hoare_param [where h = "\<lambda>q. routed q (swapDraws r)", OF routed_hoare]]]
  show ?thesis
    unfolding processOrder_try_def
    by (rule hoare_weaken [OF chain]) auto
qed

lemma catch_hoare:
  "hoare (keeps i S0) (processOrder_catch e) (seen i S0) [] anyProc {[FAILED]} anyProc"
proof (rule hoareI)
  fix p :: proc and res p'
  assume P: "keeps i S0 p" and run: "processOrder_catch e p = (res, p')"
  let ?A = "updateOrderStatus FAILED (Some ''Execution failed'') (Some (noData\<lparr>data_error := Some e\<rparr>))"
  let ?B = "dbUpdate (\<lambda>rec. rec\<lparr>status := FAILED, order_error := Some e\<rparr>)"
  obtain r1 p1 where ab: "andThen ?A ?B p = (r1, p1)" by (cases "andThen ?A ?B p")
  with run have res: "res \<noteq> None" "p' = p1"
    by (auto simp: processOrder_catch_def split: option.splits)
  have "hoare (keeps i S0) (andThen ?A ?B) (seen i S0) ([FAILED] @ []) anyProc
            ({[FAILED]} \<union> (\<lambda>t. [FAILED] @ t) ` {[]}) (keeps i S0)"
    by (rule hoare_andThen [OF uos_keeps dbUpdate_final])
  from this P ab obtain new where "published (snd p1) = published (snd p) @ new"
      and "\<forall>x\<in>set new. seen i S0 x"
      and "r1 = None \<Longrightarrow> map pubStatus new = [FAILED] @ [] \<and> anyProc p1"
      and "r1 \<noteq> None \<Longrightarrow> map pubStatus new \<in> {[FAILED]} \<union> (\<lambda>t. [FAILED] @ t) ` {[]} \<and> keeps i S0 p1"
    by (rule hoareD) (rule that)
  then show "\<exists>new. published (snd p') = published (snd p) @ new \<and> (\<forall>x\<in>set new. seen i S0 x) \<and>
           (res = None \<longrightarrow> map pubStatus new = [] \<and> anyProc p') \<and>
           (res \<noteq> None \<longrightarrow> map pubStatus new \<in> {[FAILED]} \<and> anyProc p')"
    using res by (intro exI [of _ new]) (cases r1; auto simp: anyProc_def)
qed

lemma processOrder_hoare:
  "hoare (keeps i S0) (processOrder r) (seen i S0)
     [PENDING, ROUTING, ROUTING, BUILDING, SUBMITTED, CONFIRMED] anyProc
     {[PENDING, FAILED], [PENDING, ROUTING, FAILED], [PENDING, ROUTING, ROUTING, FAILED],
      [PENDING, ROUTING, ROUTING, BUILDING, FAILED],
      [PENDING, ROUTING, ROUTING, BUILDING, SUBMITTED, FAILED],
      [PENDING, ROUTING, ROUTING, BUILDING, SUBMITTED, CONFIRMED, FAILED]} anyProc"
proof (rule hoareI)
  fix p :: proc and res p'
  assume P: "keeps i S0 p" and run: "processOrder r p = (res, p')"
  obtain r1 p1 where t: "processOrder_try r p = (r1, p1)" by (cases "processOrder_try r p")
  from try_hoare P t obtain new1 where n1: "published (snd p1) = published (snd p) @ new1"
    and g1: "\<forall>x\<in>set new1. seen i S0 x"
    and ok1: "r1 = None \<Longrightarrow> map pubStatus new1 = [PENDING, ROUTING, ROUTING, BUILDING, SUBMITTED, CONFIRMED] \<and> anyProc p1"
    and bad1: "r1 \<noteq> None \<Longrightarrow> map pubStatus new1 \<in> {[PENDING], [PENDING, ROUTING], [PENDING, ROUTING, ROUTING],
      [PENDING, ROUTING, ROUTING, BUILDING], [PENDING, ROUTING, ROUTING, BUILDING, SUBMITTED],
      [PENDING, ROUTING, ROUTING, BUILDING, SUBMITTED, CONFIRMED]} \<and> keeps i S0 p1"
    by (rule hoareD) (rule that)
  show "\<exists>new. published (snd p') = published (snd p) @ new \<and> (\<forall>x\<in>set new. seen i S0 x) \<and>
         (res = None \<longrightarrow> map pubStatus new = [PENDING, ROUTING, ROUTING, BUILDING, SUBMITTED, CONFIRMED] \<and> anyProc p') \<and>
         (res \<noteq> None \<longrightarrow> map pubStatus new \<in>
     {[PENDING, FAILED], [PENDING, ROUTING, FAILED], [PENDING, ROUTING, ROUTING, FAILED],
      [PENDING, ROUTING, ROUTING, BUILDING, FAILED],
      [PENDING, ROUTING, ROUTING, BUILDING, SUBMITTED, FAILED],
      [PENDING, ROUTING, ROUTING, BUILDING, SUBMITTED, CONFIRMED, FAILED]} \<and> anyProc p')"
  proof (cases r1)
    case None
    with run t have "res = None" "p' = p1" by (simp_all add: processOrder_def)
    with n1 g1 ok1 [OF None] show ?thesis by (intro exI [of _ new1]) simp
  next
    case (Some e)
    with run t have c: "processOrder_catch e p1 = (res, p')" by (simp add: processOrder_def)
    from Some bad1 have k: "keeps i S0 p1" by simp
    from catch_hoare k c obtain new2 where n2: "published (snd p') = published (snd p1) @ new2"
      and g2: "\<forall>x\<in>set new2. seen i S0 x"
      and ok2: "res = None \<Longrightarrow> map pubStatus new2 = [] \<and> anyProc p'"
      and bad2: "res \<noteq> None \<Longrightarrow> map pubStatus new2 \<in> {[FAILED]} \<and> anyProc p'"
      by (rule hoareD) (rule that)
    have res: "res \<noteq> None" using c by (auto simp: processOrder_catch_def split: option.splits prod.splits)
    from bad2 [OF res] have m2: "map pubStatus new2 = [FAILED]" by simp
    from Some bad1 have m1: "map pubStatus new1 \<in> {[PENDING], [PENDING, ROUTING], [PENDING, ROUTING, ROUTING],
      [PENDING, ROUTING, ROUTING, BUILDING], [PENDING, ROUTING, ROUTING, BUILDING, SUBMITTED],
      [PENDING, ROUTING, ROUTING, BUILDING, SUBMITTED, CONFIRMED]}" by simp
    show ?thesis
      using n1 n2 g1 g2 res m1 m2 by (intro exI [of _ "new1 @ new2"]) (auto simp: anyProc_def)
  qed
qed

definition quiet :: "World \<Rightarrow> bool" where
  "quiet w = (\<forall>l\<in>set (listeners w). \<forall>u. callback l u = None)"

lemma firstThrow_quiet:
  assumes "\<forall>l\<in>set ls. callback l u = None"
  shows "firstThrow u ls = None"
proof -
  have d: "dropWhile (\<lambda>l. callback l u = None) ls = []"
    using assms by simp
  show ?thesis
    by (simp only: firstThrow_def d list.case)
qed

lemma quiet_publishThrows: "quiet w \<Longrightarrow> publishThrows (listeners w) u = None"
  by (simp add: publishThrows_def quiet_def listenersOf_def firstThrow_quiet)

lemma processOrder_normal:
  assumes q: "\<And>u. publishThrows (listeners w) u = None" and s: "orders w (order_id order) = Some stored"
  shows "(fst (processOrder r (order, w)) = None) = (\<not> failDraw (swapDraws r) < 0.05) \<and>
     statusesFrom w (snd (snd (processOrder r (order, w)))) =
       [PENDING, ROUTING, ROUTING, BUILDING, SUBMITTED,
        if failDraw (swapDraws r) < 0.05 then FAILED else CONFIRMED]"
  by (simp add: processOrder_def processOrder_try_def processOrder_catch_def routed_def settle_def andThen_def
      updateOrderStatus_eq emitStatusUpdate_eq assign_def dbUpdate_def updateOrder_def Let_def q s pubStatus_def
      statusesFrom_def newPublications_def executeSwap_def executeSwap_try_def)

section \<open>The status sequence of one processing attempt\<close>

text \<open>
  A market order for the pair SOL/USDC, a store that holds it as it was submitted, and
  one subscriber whose callback returns normally (as the callback of the stream route in
  \<open>server-simple.ts\<close> does, which catches its own errors). \<open>throwingCallback\<close> is a
  callback that throws.
\<close>

definition quietCallback :: "OrderStatusUpdate \<Rightarrow> string option" where
  "quietCallback u = None"

definition throwingCallback :: "OrderStatusUpdate \<Rightarrow> string option" where
  "throwingCallback u = Some ''socket closed''"

definition exampleOrder :: Order where
  "exampleOrder = \<lparr>order_id = ''o1'', order_type = MARKET, tokenIn = ''SOL'', tokenOut = ''USDC'',
             amountIn = 100, slippage = 1, status = PENDING, selectedDex = None,
             raydiumQuote = None, meteoraQuote = None, executedPrice = None, outputAmount = None,
             txHash = None, order_error = None, retryCount = 0\<rparr>"

definition storeOnly :: World where
  "storeOnly = \<lparr>orders = [''o1'' \<mapsto> exampleOrder], listeners = [], nextListener = 0,
                published = [], delivered = []\<rparr>"

definition exampleWorld :: World where
  "exampleWorld = snd (subscribeToOrder ''o1'' quietCallback storeOnly)"

definition exampleDraws :: "real \<Rightarrow> Draws" where
  "exampleDraws f = \<lparr>raydiumDraw = 1 / 2, meteoraDraw = 1 / 2,
              swapDraws = \<lparr>failDraw = f, slipDraw = 1 / 2, hashDraws = (\<lambda>i. 0)\<rparr>\<rparr>"

text \<open>
  Draws of \<open>Math.random()\<close> are numbers in \<open>[0, 1)\<close>. With the failure draw 0 the
  settlement fails (0 < 0.05); with the failure draw 1/2 it succeeds.
\<close>

definition failing :: Draws where
  "failing = exampleDraws 0"

definition succeeding :: Draws where
  "succeeding = exampleDraws (1 / 2)"

lemma processOrder_trace:
  "\<exists>new. published (snd (snd (processOrder r (order, w)))) = published w @ new \<and>
     (\<forall>x\<in>set new. seen (order_id order) (map_option status (orders w (order_id order))) x) \<and>
     (fst (processOrder r (order, w)) = None \<longrightarrow>
        map pubStatus new = [PENDING, ROUTING, ROUTING, BUILDING, SUBMITTED, CONFIRMED]) \<and>
     (fst (processOrder r (order, w)) \<noteq> None \<longrightarrow>
        map pubStatus new \<in>
          {[PENDING, FAILED], [PENDING, ROUTING, FAILED], [PENDING, ROUTING, ROUTING, FAILED],
           [PENDING, ROUTING, ROUTING, BUILDING, FAILED],
           [PENDING, ROUTING, ROUTING, BUILDING, SUBMITTED, FAILED],
           [PENDING, ROUTING, ROUTING, BUILDING, SUBMITTED, CONFIRMED, FAILED]})"
proof -
  have k: "keeps (order_id order) (map_option status (orders w (order_id order))) (order, w)"
    by (simp add: keeps_def)
  obtain res p' where run: "processOrder r (order, w) = (res, p')"
    by (cases "processOrder r (order, w)")
  from processOrder_hoare k run obtain new where
    "published (snd p') = published (snd (order, w)) @ new"
    "\<forall>x\<in>set new. seen (order_id order) (map_option status (orders w (order_id order))) x"
    "res = None \<Longrightarrow>
       map pubStatus new = [PENDING, ROUTING, ROUTING, BUILDING, SUBMITTED, CONFIRMED] \<and> anyProc p'"
    "res \<noteq> None \<Longrightarrow>
       map pubStatus new \<in>
          {[PENDING, FAILED], [PENDING, ROUTING, FAILED], [PENDING, ROUTING, ROUTING, FAILED],
           [PENDING, ROUTING, ROUTING, BUILDING, FAILED],
           [PENDING, ROUTING, ROUTING, BUILDING, SUBMITTED, FAILED],
           [PENDING, ROUTING, ROUTING, BUILDING, SUBMITTED, CONFIRMED, FAILED]} \<and> anyProc p'"
    by (rule hoareD) (rule that)
  then show ?thesis
    by (intro exI [of _ new]) (simp add: run)
qed

lemma newPublications_append:
  "published w' = published w @ new \<Longrightarrow> newPublications w w' = new"
  by (simp add: newPublications_def)

lemma example_quiet: "quiet exampleWorld"
  by (simp add: quiet_def exampleWorld_def storeOnly_def subscribeToOrder_def Let_def
      quietCallback_def)

lemma example_stored: "orders exampleWorld (order_id exampleOrder) = Some exampleOrder"
  by (simp add: exampleWorld_def storeOnly_def subscribeToOrder_def Let_def exampleOrder_def)

lemma example_run:
  "fst (processOrder succeeding (exampleOrder, exampleWorld)) = None \<and>
   statusesFrom exampleWorld (snd (snd (processOrder succeeding (exampleOrder, exampleWorld)))) =
     [PENDING, ROUTING, ROUTING, BUILDING, SUBMITTED, CONFIRMED]"
  using processOrder_normal [OF quiet_publishThrows [OF example_quiet] example_stored, of succeeding]
  by (simp add: succeeding_def exampleDraws_def)

lemma example_failing_run:
  "fst (processOrder failing (exampleOrder, exampleWorld)) \<noteq> None \<and>
   statusesFrom exampleWorld (snd (snd (processOrder failing (exampleOrder, exampleWorld)))) =
     [PENDING, ROUTING, ROUTING, BUILDING, SUBMITTED, FAILED]"
  using processOrder_normal [OF quiet_publishThrows [OF example_quiet] example_stored, of failing]
  by (simp add: failing_def exampleDraws_def)

text \<open>
  Claim C1 (amended). Within one call of \<open>processOrder\<close> the published statuses are, in this
  order, pending, routing, routing, building, submitted and confirmed when the call
  returns; when it throws they are a non-empty initial part of that sequence followed by
  failed. The routing status is published twice (on entering the stage and again with
  the selected venue), every other status at most once, and the statuses never go
  backwards. With no throwing subscriber and the order in the store the sequence is
  pending, routing, routing, building, submitted and then confirmed or failed as the
  settlement draw decides.
\<close>

theorem processOrder_status_sequence:
  "(fst (processOrder r (order, w)) = None \<longrightarrow>
      statusesFrom w (snd (snd (processOrder r (order, w)))) =
        [PENDING, ROUTING, ROUTING, BUILDING, SUBMITTED, CONFIRMED]) \<and>
   (fst (processOrder r (order, w)) \<noteq> None \<longrightarrow>
      statusesFrom w (snd (snd (processOrder r (order, w)))) \<in>
        {[PENDING, FAILED], [PENDING, ROUTING, FAILED], [PENDING, ROUTING, ROUTING, FAILED],
         [PENDING, ROUTING, ROUTING, BUILDING, FAILED],
         [PENDING, ROUTING, ROUTING, BUILDING, SUBMITTED, FAILED],
         [PENDING, ROUTING, ROUTING, BUILDING, SUBMITTED, CONFIRMED, FAILED]}) \<and>
   (quiet w \<and> orders w (order_id order) \<noteq> None \<longrightarrow>
      statusesFrom w (snd (snd (processOrder r (order, w)))) =
        [PENDING, ROUTING, ROUTING, BUILDING, SUBMITTED,
         if failDraw (swapDraws r) < 0.05 then FAILED else CONFIRMED])"
proof -
  from processOrder_trace [of r order w] obtain new where
    n: "published (snd (snd (processOrder r (order, w)))) = published w @ new"
    and ok: "fst (processOrder r (order, w)) = None \<longrightarrow>
        map pubStatus new = [PENDING, ROUTING, ROUTING, BUILDING, SUBMITTED, CONFIRMED]"
    and bad: "fst (processOrder r (order, w)) \<noteq> None \<longrightarrow>
        map pubStatus new \<in>
          {[PENDING, FAILED], [PENDING, ROUTING, FAILED], [PENDING, ROUTING, ROUTING, FAILED],
           [PENDING, ROUTING, ROUTING, BUILDING, FAILED],
           [PENDING, ROUTING, ROUTING, BUILDING, SUBMITTED, FAILED],
           [PENDING, ROUTING, ROUTING, BUILDING, SUBMITTED, CONFIRMED, FAILED]}"
    by (elim exE conjE) (rule that)
  have s: "statusesFrom w (snd (snd (processOrder r (order, w)))) = map pubStatus new"
    by (simp add: statusesFrom_def newPublications_append [OF n])
  have normal: "quiet w \<and> orders w (order_id order) \<noteq> None \<longrightarrow>
      statusesFrom w (snd (snd (processOrder r (order, w)))) =
        [PENDING, ROUTING, ROUTING, BUILDING, SUBMITTED,
         if failDraw (swapDraws r) < 0.05 then FAILED else CONFIRMED]"
  proof
    assume a: "quiet w \<and> orders w (order_id order) \<noteq> None"
    then obtain stored where st: "orders w (order_id order) = Some stored" by blast
    from a have q: "\<And>u. publishThrows (listeners w) u = None"
      by (simp add: quiet_publishThrows)
    from processOrder_normal [OF q st, of r]
    show "statusesFrom w (snd (snd (processOrder r (order, w)))) =
        [PENDING, ROUTING, ROUTING, BUILDING, SUBMITTED,
         if failDraw (swapDraws r) < 0.05 then FAILED else CONFIRMED]"
      by blast
  qed
  from ok bad normal show ?thesis
    unfolding s by blast
qed

theorem processOrder_status_sequence_witness:
  "quiet exampleWorld \<and> orders exampleWorld (order_id exampleOrder) \<noteq> None \<and>
   fst (processOrder succeeding (exampleOrder, exampleWorld)) = None \<and>
   statusesFrom exampleWorld (snd (snd (processOrder succeeding (exampleOrder, exampleWorld)))) =
     [PENDING, ROUTING, ROUTING, BUILDING, SUBMITTED, CONFIRMED] \<and>
   fst (processOrder failing (exampleOrder, exampleWorld)) \<noteq> None \<and>
   statusesFrom exampleWorld (snd (snd (processOrder failing (exampleOrder, exampleWorld)))) =
     [PENDING, ROUTING, ROUTING, BUILDING, SUBMITTED, FAILED]"
proof -
  have h: "quiet exampleWorld \<and> orders exampleWorld (order_id exampleOrder) \<noteq> None"
    by (simp add: example_quiet example_stored)
  have f: "fst (processOrder succeeding (exampleOrder, exampleWorld)) = None"
    using example_run by blast
  have g: "fst (processOrder failing (exampleOrder, exampleWorld)) \<noteq> None"
    using example_failing_run by blast
  have d: "failDraw (swapDraws failing) < 0.05" "\<not> failDraw (swapDraws succeeding) < 0.05"
    by (simp_all add: failing_def succeeding_def exampleDraws_def)
  from processOrder_status_sequence [of succeeding exampleOrder exampleWorld] h f d
  have a: "statusesFrom exampleWorld (snd (snd (processOrder succeeding (exampleOrder, exampleWorld)))) =
     [PENDING, ROUTING, ROUTING, BUILDING, SUBMITTED, CONFIRMED]"
    by blast
  from processOrder_status_sequence [of failing exampleOrder exampleWorld] h d
  have b: "statusesFrom exampleWorld (snd (snd (processOrder failing (exampleOrder, exampleWorld)))) =
     [PENDING, ROUTING, ROUTING, BUILDING, SUBMITTED, FAILED]"
    by simp
  from h f g a b show ?thesis by blast
qed

theorem routing_published_twice:
  "\<not> (statusesFrom exampleWorld
          (snd (snd (processOrder succeeding (exampleOrder, exampleWorld)))) =
        [PENDING, ROUTING, BUILDING, SUBMITTED, CONFIRMED] \<or>
       statusesFrom exampleWorld
          (snd (snd (processOrder succeeding (exampleOrder, exampleWorld)))) =
        [PENDING, ROUTING, BUILDING, SUBMITTED, FAILED]) \<and>
   length (filter (\<lambda>st. st = ROUTING)
     (statusesFrom exampleWorld
        (snd (snd (processOrder succeeding (exampleOrder, exampleWorld)))))) = 2"
  using example_run by simp








section \<open>Delivery to subscribers\<close>

definition newDeliveries :: "World \<Rightarrow> World \<Rightarrow> (nat \<times> OrderStatusUpdate) list" where
  "newDeliveries w w' = drop (length (delivered w)) (delivered w')"

definition subscribers :: "string \<Rightarrow> World \<Rightarrow> Listener list" where
  "subscribers orderId w = listenersOf (orderEvent orderId) (listeners w)"

lemma reached_quiet:
  assumes "\<forall>l\<in>set ls. callback l u = None"
  shows "reached u ls = ls"
proof -
  have "takeWhile (\<lambda>l. callback l u = None) ls = ls"
    and "dropWhile (\<lambda>l. callback l u = None) ls = []"
    using assms by simp_all
  then show ?thesis
    by (simp only: reached_def take.simps append_Nil2)
qed

lemma reached_throw:
  assumes "\<forall>l\<in>set pre. callback l u = None" and "callback t u \<noteq> None"
  shows "reached u (pre @ t # post) = pre @ [t] \<and> firstThrow u (pre @ t # post) = callback t u"
proof -
  have "takeWhile (\<lambda>l. callback l u = None) (pre @ t # post) = pre \<and>
        dropWhile (\<lambda>l. callback l u = None) (pre @ t # post) = t # post"
    using assms by (induction pre) auto
  then show ?thesis
    by (simp add: reached_def firstThrow_def)
qed

lemma emitStatusUpdate_deliveries:
  "newDeliveries w (snd (snd (emitStatusUpdate st msg dat (order, w)))) =
     publishCalls (listeners w) (mkUpdate order st msg dat) \<and>
   fst (emitStatusUpdate st msg dat (order, w)) =
     publishThrows (listeners w) (mkUpdate order st msg dat)"
  by (simp add: emitStatusUpdate_eq newDeliveries_def)

lemma mkUpdate_id [simp]: "upd_orderId (mkUpdate order st msg dat) = order_id order"
  by (simp add: mkUpdate_def)

text \<open>
  Claim C3 (amended). Publishing a status event calls the callbacks subscribed to the
  order id in the order of their subscription. When none of them throws, every one of
  them receives the event. When one throws, the callbacks subscribed before it and the
  throwing one have received the event, the callbacks subscribed after it do not receive
  it, and the error leaves \<open>emitStatusUpdate\<close>. \<open>subscribeToOrder\<close> appends the callback to
  the subscribers of the order id.
\<close>

theorem publish_delivery:
  "((\<forall>l\<in>set (subscribers (order_id order) w). callback l (mkUpdate order st msg dat) = None) \<longrightarrow>
      take (length (subscribers (order_id order) w))
        (newDeliveries w (snd (snd (emitStatusUpdate st msg dat (order, w))))) =
      map (\<lambda>l. (listener_id l, mkUpdate order st msg dat)) (subscribers (order_id order) w)) \<and>
   (\<forall>pre t post.
      subscribers (order_id order) w = pre @ t # post \<and>
      (\<forall>l\<in>set pre. callback l (mkUpdate order st msg dat) = None) \<and>
      callback t (mkUpdate order st msg dat) \<noteq> None \<longrightarrow>
        fst (emitStatusUpdate st msg dat (order, w)) = callback t (mkUpdate order st msg dat) \<and>
        newDeliveries w (snd (snd (emitStatusUpdate st msg dat (order, w)))) =
          map (\<lambda>l. (listener_id l, mkUpdate order st msg dat)) (pre @ [t])) \<and>
   subscribers orderId (snd (subscribeToOrder orderId cb w)) =
     subscribers orderId w @
       [\<lparr>listener_id = nextListener w, eventName = orderEvent orderId, callback = cb\<rparr>]"
proof -
  let ?u = "mkUpdate order st msg dat"
  let ?subs = "subscribers (order_id order) w"
  let ?w' = "snd (snd (emitStatusUpdate st msg dat (order, w)))"
  have calls: "newDeliveries w ?w' = publishCalls (listeners w) ?u"
    and thrown: "fst (emitStatusUpdate st msg dat (order, w)) = publishThrows (listeners w) ?u"
    using emitStatusUpdate_deliveries [of w st msg dat order] by simp_all
  have a: "(\<forall>l\<in>set ?subs. callback l ?u = None) \<longrightarrow>
      take (length ?subs) (newDeliveries w ?w') = map (\<lambda>l. (listener_id l, ?u)) ?subs"
  proof
    assume q: "\<forall>l\<in>set ?subs. callback l ?u = None"
    then have "reached ?u ?subs = ?subs" by (rule reached_quiet)
    then show "take (length ?subs) (newDeliveries w ?w') = map (\<lambda>l. (listener_id l, ?u)) ?subs"
      by (simp add: calls publishCalls_def subscribers_def)
  qed
  have b: "\<forall>pre t post.
      ?subs = pre @ t # post \<and> (\<forall>l\<in>set pre. callback l ?u = None) \<and> callback t ?u \<noteq> None \<longrightarrow>
        fst (emitStatusUpdate st msg dat (order, w)) = callback t ?u \<and>
        newDeliveries w ?w' = map (\<lambda>l. (listener_id l, ?u)) (pre @ [t])"
  proof (intro allI impI, elim conjE)
    fix pre t post
    assume s: "?subs = pre @ t # post" and q: "\<forall>l\<in>set pre. callback l ?u = None"
      and t: "callback t ?u \<noteq> None"
    from reached_throw [OF q t, of post]
    have r: "reached ?u ?subs = pre @ [t]" and f: "firstThrow ?u ?subs = callback t ?u"
      by (simp_all add: s)
    from t obtain e where e: "callback t ?u = Some e" by blast
    show "fst (emitStatusUpdate st msg dat (order, w)) = callback t ?u \<and>
        newDeliveries w ?w' = map (\<lambda>l. (listener_id l, ?u)) (pre @ [t])"
      using r f e
      by (simp add: calls thrown publishCalls_def publishThrows_def subscribers_def)
  qed
  have c: "subscribers orderId (snd (subscribeToOrder orderId cb w)) =
     subscribers orderId w @
       [\<lparr>listener_id = nextListener w, eventName = orderEvent orderId, callback = cb\<rparr>]"
    by (simp add: subscribers_def subscribeToOrder_def listenersOf_def Let_def)
  from a b c show ?thesis by blast
qed

definition twoSubscribers :: World where
  "twoSubscribers =
     snd (subscribeToOrder ''o1'' quietCallback exampleWorld)"

definition throwingFirst :: World where
  "throwingFirst =
     snd (subscribeToOrder ''o1'' quietCallback
       (snd (subscribeToOrder ''o1'' throwingCallback storeOnly)))"

lemma twoSubscribers_eq:
  "subscribers ''o1'' twoSubscribers =
     [\<lparr>listener_id = 0, eventName = orderEvent ''o1'', callback = quietCallback\<rparr>,
      \<lparr>listener_id = 1, eventName = orderEvent ''o1'', callback = quietCallback\<rparr>]"
  by (simp add: twoSubscribers_def subscribers_def subscribeToOrder_def listenersOf_def Let_def
      exampleWorld_def storeOnly_def)

lemma throwingFirst_eq:
  "subscribers ''o1'' throwingFirst =
     [\<lparr>listener_id = 0, eventName = orderEvent ''o1'', callback = throwingCallback\<rparr>,
      \<lparr>listener_id = 1, eventName = orderEvent ''o1'', callback = quietCallback\<rparr>]"
  by (simp add: throwingFirst_def subscribers_def subscribeToOrder_def listenersOf_def Let_def
      storeOnly_def)

theorem publish_delivery_witness:
  "list_all (\<lambda>l. callback l (mkUpdate exampleOrder ROUTING None None) = None)
     (subscribers (order_id exampleOrder) twoSubscribers) \<and>
   take 2 (newDeliveries twoSubscribers
     (snd (snd (emitStatusUpdate ROUTING None None (exampleOrder, twoSubscribers))))) =
     [(0, mkUpdate exampleOrder ROUTING None None), (1, mkUpdate exampleOrder ROUTING None None)] \<and>
   callback (hd (subscribers (order_id exampleOrder) throwingFirst))
     (mkUpdate exampleOrder ROUTING None None) = Some ''socket closed'' \<and>
   fst (emitStatusUpdate ROUTING None None (exampleOrder, throwingFirst)) = Some ''socket closed'' \<and>
   newDeliveries throwingFirst
     (snd (snd (emitStatusUpdate ROUTING None None (exampleOrder, throwingFirst)))) =
     [(0, mkUpdate exampleOrder ROUTING None None)]"
proof -
  let ?u = "mkUpdate exampleOrder ROUTING None None"
  let ?t = "\<lparr>listener_id = 0, eventName = orderEvent ''o1'', callback = throwingCallback\<rparr>"
  let ?q = "\<lparr>listener_id = 1, eventName = orderEvent ''o1'', callback = quietCallback\<rparr>"
  have i: "order_id exampleOrder = ''o1''" by (simp add: exampleOrder_def)
  have q: "\<forall>l\<in>set (subscribers (order_id exampleOrder) twoSubscribers). callback l ?u = None"
    by (simp add: i twoSubscribers_eq quietCallback_def)
  from publish_delivery [of exampleOrder twoSubscribers ROUTING None None] q
  have "take (length (subscribers (order_id exampleOrder) twoSubscribers))
        (newDeliveries twoSubscribers
          (snd (snd (emitStatusUpdate ROUTING None None (exampleOrder, twoSubscribers))))) =
      map (\<lambda>l. (listener_id l, ?u)) (subscribers (order_id exampleOrder) twoSubscribers)"
    by blast
  then have a: "take 2 (newDeliveries twoSubscribers
     (snd (snd (emitStatusUpdate ROUTING None None (exampleOrder, twoSubscribers))))) =
     [(0, ?u), (1, ?u)]"
    by (simp add: i twoSubscribers_eq eval_nat_numeral)
  have s: "subscribers (order_id exampleOrder) throwingFirst = [] @ ?t # [?q]"
    by (simp add: i throwingFirst_eq)
  have t: "callback ?t ?u \<noteq> None" and t': "callback ?t ?u = Some ''socket closed''"
    by (simp_all add: throwingCallback_def)
  have p: "\<forall>l\<in>set []. callback l ?u = None" by simp
  from publish_delivery [of exampleOrder throwingFirst ROUTING None None] s p t
  have "fst (emitStatusUpdate ROUTING None None (exampleOrder, throwingFirst)) = callback ?t ?u \<and>
        newDeliveries throwingFirst
          (snd (snd (emitStatusUpdate ROUTING None None (exampleOrder, throwingFirst)))) =
          map (\<lambda>l. (listener_id l, ?u)) ([] @ [?t])"
    by blast
  then have b: "fst (emitStatusUpdate ROUTING None None (exampleOrder, throwingFirst)) =
                  Some ''socket closed''"
    and c: "newDeliveries throwingFirst
          (snd (snd (emitStatusUpdate ROUTING None None (exampleOrder, throwingFirst)))) = [(0, ?u)]"
    by (simp_all add: throwingCallback_def)
  have d: "callback (hd (subscribers (order_id exampleOrder) throwingFirst)) ?u =
             Some ''socket closed''"
    by (simp add: s throwingCallback_def)
  from q a b c d show ?thesis by (simp add: list_all_iff)
qed

theorem throwing_callback_stops_delivery:
  "map listener_id (subscribers ''o1'' throwingFirst) = [0, 1] \<and>
   fst (emitStatusUpdate ROUTING None None (exampleOrder, throwingFirst)) = Some ''socket closed'' \<and>
   map fst (newDeliveries throwingFirst
     (snd (snd (emitStatusUpdate ROUTING None None (exampleOrder, throwingFirst))))) = [0]"
proof -
  have i: "order_id exampleOrder = ''o1''" by (simp add: exampleOrder_def)
  have l: "listenersOf (orderEvent ''o1'') (listeners throwingFirst) =
     [\<lparr>listener_id = 0, eventName = orderEvent ''o1'', callback = throwingCallback\<rparr>,
      \<lparr>listener_id = 1, eventName = orderEvent ''o1'', callback = quietCallback\<rparr>]"
    using throwingFirst_eq by (simp add: subscribers_def)
  show ?thesis
    by (simp add: throwingFirst_eq emitStatusUpdate_deliveries publishCalls_def publishThrows_def
        i l reached_def firstThrow_def throwingCallback_def quietCallback_def)
qed

section \<open>SimpleQueueService (src/services/simple-queue.service.ts)\<close>

datatype JobStatus = waiting | active | completed | failed

record QueueJob =
  job_id :: string
  job_order :: Order
  attempts :: nat
  job_status :: JobStatus
  job_error :: "string option"

text \<open>
  \<open>config.queue\<close>: the two limits are read from the environment with \<open>parseInt\<close>, with
  the defaults 10 and 3. They are counts, and the model takes them as natural numbers.
\<close>

record Config =
  concurrency :: nat
  maxRetries :: nat

definition defaultConfig :: Config where
  "defaultConfig = \<lparr>concurrency = 10, maxRetries = 3\<rparr>"

text \<open>
  The fields of the service, and the calls of its \<open>async\<close> methods that are suspended at
  an \<open>await\<close>: \<open>loops\<close> counts the calls of \<open>processQueue\<close> waiting in \<open>delay(100)\<close>,
  \<open>running\<close> holds the jobs whose \<open>processJob\<close> awaits \<open>processOrder\<close>, and \<open>backingOff\<close>
  the jobs whose \<open>processJob\<close> awaits the retry delay, with that delay in milliseconds.
  \<open>activeJobs\<close> is a \<open>Set\<close> of ids: a list without repetitions, in insertion order.
\<close>

record SimpleQueue =
  queue :: "QueueJob list"
  activeJobs :: "string list"
  completedJobs :: "QueueJob list"
  failedJobs :: "QueueJob list"
  processing :: bool
  loops :: nat
  running :: "QueueJob list"
  backingOff :: "(QueueJob \<times> nat) list"
  world :: World

definition initial :: "World \<Rightarrow> SimpleQueue" where
  "initial w = \<lparr>queue = [], activeJobs = [], completedJobs = [], failedJobs = [],
                processing = False, loops = 0, running = [], backingOff = [], world = w\<rparr>"

definition setAdd :: "string \<Rightarrow> string list \<Rightarrow> string list" where
  "setAdd x xs = (if x \<in> set xs then xs else xs @ [x])"

definition setDelete :: "string \<Rightarrow> string list \<Rightarrow> string list" where
  "setDelete x xs = filter (\<lambda>y. y \<noteq> x) xs"

definition dropAt :: "nat \<Rightarrow> 'a list \<Rightarrow> 'a list" where
  "dropAt i xs = take i xs @ drop (Suc i) xs"

text \<open>\<open>processJob\<close> up to its \<open>await\<close>.\<close>

definition processJob_start :: "QueueJob \<Rightarrow> SimpleQueue \<Rightarrow> SimpleQueue" where
  "processJob_start job s =
     s\<lparr>activeJobs := setAdd (job_id job) (activeJobs s),
       running := running s @ [job\<lparr>job_status := active, attempts := Suc (attempts job)\<rparr>]\<rparr>"

text \<open>The inner \<open>while\<close> loop of \<open>processQueue\<close>.\<close>

function admitLoop :: "Config \<Rightarrow> SimpleQueue \<Rightarrow> SimpleQueue" where
  "admitLoop cfg s =
     (if length (activeJobs s) < concurrency cfg \<and> queue s \<noteq> []
      then admitLoop cfg (processJob_start (hd (queue s)) (s\<lparr>queue := tl (queue s)\<rparr>))
      else s)"
  by pat_completeness auto
termination
  by (relation "measure (\<lambda>(cfg, s). length (queue s))") (auto simp: processJob_start_def)

declare admitLoop.simps [simp del]

text \<open>
  One round of the outer \<open>while\<close> loop: when its condition holds, the inner loop runs and
  the call suspends in \<open>delay(100)\<close>; otherwise the call clears \<open>processing\<close> and returns.
\<close>

definition loopIteration :: "Config \<Rightarrow> SimpleQueue \<Rightarrow> SimpleQueue" where
  "loopIteration cfg s =
     (if queue s \<noteq> [] \<or> activeJobs s \<noteq> []
      then (let s' = admitLoop cfg s in s'\<lparr>loops := Suc (loops s')\<rparr>)
      else s\<lparr>processing := False\<rparr>)"

definition processQueue :: "Config \<Rightarrow> SimpleQueue \<Rightarrow> SimpleQueue" where
  "processQueue cfg s =
     (if processing s then s else loopIteration cfg (s\<lparr>processing := True\<rparr>))"

definition wake :: "Config \<Rightarrow> SimpleQueue \<Rightarrow> SimpleQueue" where
  "wake cfg s = (if loops s = 0 then s else loopIteration cfg (s\<lparr>loops := loops s - 1\<rparr>))"

definition addOrder :: "Config \<Rightarrow> Order \<Rightarrow> SimpleQueue \<Rightarrow> SimpleQueue" where
  "addOrder cfg order s =
     (let job = \<lparr>job_id = order_id order, job_order = order, attempts = 0,
                 job_status = waiting, job_error = None\<rparr>;
          s1 = s\<lparr>queue := queue s @ [job]\<rparr>
      in if \<not> processing s1 then processQueue cfg s1 else s1)"

text \<open>
  \<open>Math.pow(2, job.attempts - 1) * 1000\<close>; it is computed after \<open>job.attempts++\<close>, so the
  exponent is never negative.
\<close>

definition retryDelay :: "nat \<Rightarrow> nat" where
  "retryDelay n = 2 ^ (n - 1) * 1000"

text \<open>
  \<open>processJob\<close> from the \<open>await\<close> of \<open>processOrder\<close> on, for the job at position \<open>i\<close> of
  \<open>running\<close>, with the random draws of that attempt.
\<close>

definition processJob_run :: "Config \<Rightarrow> nat \<Rightarrow> Draws \<Rightarrow> SimpleQueue \<Rightarrow> SimpleQueue" where
  "processJob_run cfg i r s =
     (if i < length (running s) then
        (let job0 = running s ! i;
             res = processOrder r (job_order job0, world s);
             job = job0\<lparr>job_order := fst (snd res)\<rparr>;
             s1 = s\<lparr>running := dropAt i (running s), world := snd (snd res)\<rparr>
         in case fst res of
              None \<Rightarrow>
                s1\<lparr>completedJobs := completedJobs s1 @ [job\<lparr>job_status := completed\<rparr>],
                   activeJobs := setDelete (job_id job) (activeJobs s1)\<rparr>
            | Some errorMsg \<Rightarrow>
                if attempts job < maxRetries cfg
                then s1\<lparr>backingOff := backingOff s1 @ [(job, retryDelay (attempts job))]\<rparr>
                else s1\<lparr>failedJobs := failedJobs s1 @
                                         [job\<lparr>job_status := failed, job_error := Some errorMsg\<rparr>],
                        activeJobs := setDelete (job_id job) (activeJobs s1)\<rparr>)
      else s)"

text \<open>\<open>processJob\<close> after the retry delay of the job at position \<open>i\<close> of \<open>backingOff\<close>.\<close>

definition processJob_requeue :: "nat \<Rightarrow> SimpleQueue \<Rightarrow> SimpleQueue" where
  "processJob_requeue i s =
     (if i < length (backingOff s) then
        (let job = fst (backingOff s ! i)
         in s\<lparr>backingOff := dropAt i (backingOff s),
              queue := queue s @ [job\<lparr>job_status := waiting\<rparr>],
              activeJobs := setDelete (job_id job) (activeJobs s)\<rparr>)
      else s)"

definition close :: "SimpleQueue \<Rightarrow> SimpleQueue" where
  "close s = s\<lparr>processing := False, queue := [], activeJobs := []\<rparr>"

definition getJob :: "string \<Rightarrow> SimpleQueue \<Rightarrow> QueueJob option" where
  "getJob orderId s =
     (case find (\<lambda>j. job_id j = orderId) (queue s) of
        Some queuedJob \<Rightarrow> Some queuedJob
      | None \<Rightarrow>
          (case find (\<lambda>j. job_id j = orderId) (completedJobs s) of
             Some completedJob \<Rightarrow> Some completedJob
           | None \<Rightarrow> find (\<lambda>j. job_id j = orderId) (failedJobs s)))"

text \<open>
  What can happen to the service: a call of \<open>addOrder\<close> or \<open>close\<close>, the end of a delay
  of \<open>processQueue\<close>, the end of the \<open>processOrder\<close> call of a running job, and the end of
  a retry delay. A history of the service is a list of such events from the initial
  state; no order of the timers is assumed.
\<close>

definition getStats :: "SimpleQueue \<Rightarrow> nat \<times> nat \<times> nat \<times> nat \<times> nat" where
  "getStats s =
     (length (queue s), length (activeJobs s), length (completedJobs s), length (failedJobs s),
      length (queue s) + length (activeJobs s) + length (completedJobs s) + length (failedJobs s))"

datatype Event = AddOrder Order | Wake | Finish nat Draws | BackoffElapsed nat | Close

fun step :: "Config \<Rightarrow> Event \<Rightarrow> SimpleQueue \<Rightarrow> SimpleQueue" where
  "step cfg (AddOrder order) s = addOrder cfg order s"
| "step cfg Wake s = wake cfg s"
| "step cfg (Finish i r) s = processJob_run cfg i r s"
| "step cfg (BackoffElapsed i) s = processJob_requeue i s"
| "step cfg Close s = close s"

fun run :: "Config \<Rightarrow> Event list \<Rightarrow> SimpleQueue \<Rightarrow> SimpleQueue" where
  "run cfg [] s = s"
| "run cfg (e # es) s = run cfg es (step cfg e s)"

section \<open>The concurrency limit\<close>

lemma setAdd_length: "length (setAdd x xs) \<le> Suc (length xs)"
  by (simp add: setAdd_def)

lemma setDelete_length: "length (setDelete x xs) \<le> length xs"
  by (simp add: setDelete_def)

lemma setDelete_subset: "set (setDelete x xs) \<subseteq> set xs"
  by (auto simp: setDelete_def)

lemma admitLoop_cap:
  "length (activeJobs s) \<le> concurrency cfg \<Longrightarrow>
   length (activeJobs (admitLoop cfg s)) \<le> concurrency cfg"
proof (induction cfg s rule: admitLoop.induct)
  case (1 cfg s)
  show ?case
  proof (cases "length (activeJobs s) < concurrency cfg \<and> queue s \<noteq> []")
    case True
    let ?s' = "processJob_start (hd (queue s)) (s\<lparr>queue := tl (queue s)\<rparr>)"
    have "length (activeJobs ?s') \<le> Suc (length (activeJobs s))"
      by (simp add: processJob_start_def setAdd_length)
    with True have "length (activeJobs ?s') \<le> concurrency cfg" by simp
    with "1.IH" True have "length (activeJobs (admitLoop cfg ?s')) \<le> concurrency cfg"
      by blast
    with True show ?thesis by (subst admitLoop.simps) simp
  next
    case False
    with "1.prems" show ?thesis by (subst admitLoop.simps) auto
  qed
qed

lemma admitLoop_full:
  "concurrency cfg \<le> length (activeJobs s) \<Longrightarrow> admitLoop cfg s = s"
  by (subst admitLoop.simps) simp

lemma loopIteration_cap:
  "length (activeJobs s) \<le> concurrency cfg \<Longrightarrow>
   length (activeJobs (loopIteration cfg s)) \<le> concurrency cfg"
  using admitLoop_cap [of s cfg] by (simp add: loopIteration_def Let_def)

lemma step_cap:
  assumes "length (activeJobs s) \<le> concurrency cfg"
  shows "length (activeJobs (step cfg e s)) \<le> concurrency cfg"
proof (cases e)
  case (AddOrder order)
  let ?s1 = "s\<lparr>queue := queue s @ [\<lparr>job_id = order_id order, job_order = order, attempts = 0,
                 job_status = waiting, job_error = None\<rparr>]\<rparr>"
  have "length (activeJobs (loopIteration cfg (?s1\<lparr>processing := True\<rparr>))) \<le> concurrency cfg"
    using assms by (intro loopIteration_cap) simp
  with assms AddOrder show ?thesis
    by (simp add: addOrder_def processQueue_def Let_def)
next
  case Wake
  have "length (activeJobs (loopIteration cfg (s\<lparr>loops := loops s - 1\<rparr>))) \<le> concurrency cfg"
    using assms by (intro loopIteration_cap) simp
  with assms Wake show ?thesis by (simp add: wake_def)
next
  case (Finish i r)
  have "length (setDelete x (activeJobs s)) \<le> concurrency cfg" for x
    using setDelete_length [of x "activeJobs s"] assms by simp
  with assms Finish show ?thesis
    by (simp add: processJob_run_def Let_def split: option.split)
next
  case (BackoffElapsed i)
  have "length (setDelete x (activeJobs s)) \<le> concurrency cfg" for x
    using setDelete_length [of x "activeJobs s"] assms by simp
  with assms BackoffElapsed show ?thesis
    by (simp add: processJob_requeue_def Let_def)
next
  case Close
  then show ?thesis by (simp add: close_def)
qed

lemma run_cap:
  "length (activeJobs s) \<le> concurrency cfg \<Longrightarrow>
   length (activeJobs (run cfg evs s)) \<le> concurrency cfg"
  by (induction evs arbitrary: s) (simp_all add: step_cap)

lemma step_full:
  assumes "concurrency cfg \<le> length (activeJobs s)"
  shows "length (running (step cfg e s)) \<le> length (running s) \<and>
         set (activeJobs (step cfg e s)) \<subseteq> set (activeJobs s)"
proof (cases e)
  case (AddOrder order)
  with assms show ?thesis
    by (simp add: addOrder_def processQueue_def loopIteration_def Let_def admitLoop_full)
next
  case Wake
  with assms show ?thesis
    by (simp add: wake_def loopIteration_def Let_def admitLoop_full)
next
  case (Finish i r)
  then show ?thesis
    using setDelete_subset
    by (auto simp: processJob_run_def Let_def dropAt_def split: option.split)
next
  case (BackoffElapsed i)
  then show ?thesis
    using setDelete_subset
    by (auto simp: processJob_requeue_def Let_def)
next
  case Close
  then show ?thesis by (simp add: close_def)
qed

text \<open>
  Claim C4. In every history of the queue the number of ids in the active set is at
  most the configured concurrency limit. Jobs are started only by the inner loop of
  \<open>processQueue\<close>, whose guard is that the active count is strictly below the limit: from
  a state whose active count has reached the limit, no event starts a job or adds an id
  to the active set, and the inner loop leaves such a state unchanged.
\<close>

theorem active_never_exceeds_concurrency:
  "length (activeJobs (run cfg evs (initial w))) \<le> concurrency cfg \<and>
   (concurrency cfg \<le> length (activeJobs s) \<longrightarrow>
      admitLoop cfg s = s \<and>
      length (running (step cfg e s)) \<le> length (running s) \<and>
      set (activeJobs (step cfg e s)) \<subseteq> set (activeJobs s))"
proof -
  have "length (activeJobs (initial w)) \<le> concurrency cfg"
    by (simp add: initial_def)
  then have a: "length (activeJobs (run cfg evs (initial w))) \<le> concurrency cfg"
    by (rule run_cap)
  from a admitLoop_full [of cfg s] step_full [of cfg s e] show ?thesis
    by blast
qed

section \<open>Retries\<close>

definition retryInv :: "Config \<Rightarrow> SimpleQueue \<Rightarrow> bool" where
  "retryInv cfg s =
     ((\<forall>j\<in>set (queue s). attempts j < maxRetries cfg \<or> attempts j = 0) \<and>
      (\<forall>j\<in>set (running s). 1 \<le> attempts j \<and> (attempts j \<le> maxRetries cfg \<or> attempts j = 1)) \<and>
      (\<forall>(j, d)\<in>set (backingOff s).
          1 \<le> attempts j \<and> attempts j < maxRetries cfg \<and> d = 1000 * 2 ^ (attempts j - 1)) \<and>
      (\<forall>j\<in>set (failedJobs s). attempts j = max 1 (maxRetries cfg) \<and> job_status j = failed))"

lemma dropAt_subset: "set (dropAt i xs) \<subseteq> set xs"
  using set_take_subset [of i xs] set_drop_subset [of "Suc i" xs]
  by (auto simp: dropAt_def)

lemma processJob_start_retryInv:
  assumes "retryInv cfg s" and "queue s \<noteq> []"
  shows "retryInv cfg (processJob_start (hd (queue s)) (s\<lparr>queue := tl (queue s)\<rparr>))"
proof -
  have h: "hd (queue s) \<in> set (queue s)" using assms(2) by simp
  have t: "set (tl (queue s)) \<subseteq> set (queue s)"
    using assms(2) by (cases "queue s") auto
  from assms(1) h have "attempts (hd (queue s)) < maxRetries cfg \<or> attempts (hd (queue s)) = 0"
    by (simp add: retryInv_def)
  with assms(1) t show ?thesis
    by (auto simp: retryInv_def processJob_start_def)
qed

lemma admitLoop_retryInv:
  "retryInv cfg s \<Longrightarrow> retryInv cfg (admitLoop cfg s)"
proof (induction cfg s rule: admitLoop.induct)
  case (1 cfg s)
  show ?case
  proof (cases "length (activeJobs s) < concurrency cfg \<and> queue s \<noteq> []")
    case True
    let ?s' = "processJob_start (hd (queue s)) (s\<lparr>queue := tl (queue s)\<rparr>)"
    have "retryInv cfg ?s'"
      using "1.prems" True by (simp add: processJob_start_retryInv)
    with "1.IH" True have "retryInv cfg (admitLoop cfg ?s')" by blast
    with True show ?thesis by (subst admitLoop.simps) simp
  next
    case False
    with "1.prems" show ?thesis by (subst admitLoop.simps) auto
  qed
qed

lemma retryInv_fields:
  "retryInv cfg (s\<lparr>loops := n\<rparr>) = retryInv cfg s"
  "retryInv cfg (s\<lparr>processing := b\<rparr>) = retryInv cfg s"
  "retryInv cfg (s\<lparr>world := w\<rparr>) = retryInv cfg s"
  "retryInv cfg (s\<lparr>activeJobs := a\<rparr>) = retryInv cfg s"
  "retryInv cfg (s\<lparr>completedJobs := c\<rparr>) = retryInv cfg s"
  by (simp_all add: retryInv_def)

lemma loopIteration_retryInv:
  "retryInv cfg s \<Longrightarrow> retryInv cfg (loopIteration cfg s)"
  using admitLoop_retryInv [of cfg s]
  by (simp add: loopIteration_def Let_def retryInv_fields)

lemma addOrder_retryInv:
  assumes "retryInv cfg s"
  shows "retryInv cfg (addOrder cfg order s)"
proof -
  let ?s1 = "s\<lparr>queue := queue s @ [\<lparr>job_id = order_id order, job_order = order, attempts = 0,
                 job_status = waiting, job_error = None\<rparr>]\<rparr>"
  have a: "retryInv cfg ?s1" using assms by (auto simp: retryInv_def)
  then have "retryInv cfg (loopIteration cfg (?s1\<lparr>processing := True\<rparr>))"
    by (intro loopIteration_retryInv) (simp add: retryInv_fields)
  with a show ?thesis
    by (simp add: addOrder_def processQueue_def Let_def)
qed

lemma failed_attempts:
  assumes "1 \<le> (a::nat)" and "a \<le> m \<or> a = 1" and "\<not> a < m"
  shows "a = max 1 m"
  using assms by auto

lemma processJob_run_retryInv:
  assumes inv: "retryInv cfg s"
  shows "retryInv cfg (processJob_run cfg i r s)"
proof (cases "i < length (running s)")
  case False
  with inv show ?thesis by (simp add: processJob_run_def)
next
  case True
  let ?job = "running s ! i"
  from True have m: "?job \<in> set (running s)" by simp
  with inv have a: "1 \<le> attempts ?job" "attempts ?job \<le> maxRetries cfg \<or> attempts ?job = 1"
    by (simp_all add: retryInv_def)
  have d: "\<forall>j\<in>set (dropAt i (running s)).
             1 \<le> attempts j \<and> (attempts j \<le> maxRetries cfg \<or> attempts j = 1)"
    using inv dropAt_subset [of i "running s"] by (auto simp: retryInv_def)
  have f: "\<not> attempts ?job < maxRetries cfg \<Longrightarrow> attempts ?job = max 1 (maxRetries cfg)"
    using a by (intro failed_attempts) simp_all
  show ?thesis
    using True inv a d f
    by (auto simp: processJob_run_def Let_def retryInv_def retryDelay_def split: option.split)
qed

lemma processJob_requeue_retryInv:
  assumes inv: "retryInv cfg s"
  shows "retryInv cfg (processJob_requeue i s)"
proof (cases "i < length (backingOff s)")
  case False
  with inv show ?thesis by (simp add: processJob_requeue_def)
next
  case True
  then have m: "backingOff s ! i \<in> set (backingOff s)" by simp
  with inv have a: "attempts (fst (backingOff s ! i)) < maxRetries cfg"
    by (auto simp: retryInv_def)
  have d: "\<forall>(j, d)\<in>set (dropAt i (backingOff s)).
          1 \<le> attempts j \<and> attempts j < maxRetries cfg \<and> d = 1000 * 2 ^ (attempts j - 1)"
    using inv dropAt_subset [of i "backingOff s"] by (auto simp: retryInv_def)
  show ?thesis
    using True inv a d
    by (auto simp: processJob_requeue_def Let_def retryInv_def)
qed

lemma step_retryInv:
  "retryInv cfg s \<Longrightarrow> retryInv cfg (step cfg e s)"
proof (cases e)
  case (AddOrder order)
  assume "retryInv cfg s"
  with AddOrder show ?thesis by (simp add: addOrder_retryInv)
next
  case Wake
  assume inv: "retryInv cfg s"
  then have "retryInv cfg (loopIteration cfg (s\<lparr>loops := loops s - 1\<rparr>))"
    by (intro loopIteration_retryInv) (simp add: retryInv_fields)
  with inv Wake show ?thesis by (simp add: wake_def)
next
  case (Finish i r)
  assume "retryInv cfg s"
  with Finish show ?thesis by (simp add: processJob_run_retryInv)
next
  case (BackoffElapsed i)
  assume "retryInv cfg s"
  with BackoffElapsed show ?thesis by (simp add: processJob_requeue_retryInv)
next
  case Close
  assume "retryInv cfg s"
  with Close show ?thesis by (simp add: close_def retryInv_def)
qed

lemma run_retryInv:
  "retryInv cfg s \<Longrightarrow> retryInv cfg (run cfg evs s)"
  by (induction evs arbitrary: s) (simp_all add: step_retryInv)

lemma initial_retryInv: "retryInv cfg (initial w)"
  by (simp add: retryInv_def initial_def)

text \<open>
  Claim C5 (amended). In every history of the queue, every job recorded as permanently
  failed has an attempt count equal to the configured maximum when that maximum is at
  least 1, and equal to 1 when the maximum is 0 (the first attempt is always made).
  Every job waiting in its retry delay has made at least one attempt and fewer than the
  maximum, and its delay is 1000 ms times 2 raised to (attempts minus 1).
\<close>

theorem failed_jobs_exhausted_attempts:
  "(\<forall>j\<in>set (failedJobs (run cfg evs (initial w))).
      attempts j = max 1 (maxRetries cfg) \<and> job_status j = failed) \<and>
   (\<forall>(j, d)\<in>set (backingOff (run cfg evs (initial w))).
      1 \<le> attempts j \<and> attempts j < maxRetries cfg \<and> d = 1000 * 2 ^ (attempts j - 1))"
  using run_retryInv [OF initial_retryInv, of cfg evs w]
  by (simp add: retryInv_def)

section \<open>Looking up a job that is being processed\<close>

definition inFlight :: "SimpleQueue \<Rightarrow> QueueJob list" where
  "inFlight s = running s @ map fst (backingOff s)"

definition searched :: "SimpleQueue \<Rightarrow> QueueJob list" where
  "searched s = queue s @ completedJobs s @ failedJobs s"

definition allJobs :: "SimpleQueue \<Rightarrow> QueueJob list" where
  "allJobs s = queue s @ inFlight s @ completedJobs s @ failedJobs s"

fun addedIds :: "Event list \<Rightarrow> string list" where
  "addedIds [] = []"
| "addedIds (AddOrder order # es) = order_id order # addedIds es"
| "addedIds (e # es) = addedIds es"

definition idBag :: "SimpleQueue \<Rightarrow> string multiset" where
  "idBag s = mset (map job_id (allJobs s))"

definition statusInv :: "SimpleQueue \<Rightarrow> bool" where
  "statusInv s =
     ((\<forall>j\<in>set (queue s). job_status j = waiting) \<and>
      (\<forall>j\<in>set (inFlight s). job_status j = active) \<and>
      (\<forall>j\<in>set (completedJobs s). job_status j = completed) \<and>
      (\<forall>j\<in>set (failedJobs s). job_status j = failed))"

definition activeInv :: "SimpleQueue \<Rightarrow> bool" where
  "activeInv s = (set (activeJobs s) \<subseteq> job_id ` set (inFlight s))"

lemma setAdd_set: "set (setAdd x xs) = insert x (set xs)"
  by (auto simp: setAdd_def)

lemma setDelete_set: "set (setDelete x xs) = set xs - {x}"
  by (auto simp: setDelete_def)

lemma dropAt_mset:
  assumes "i < length xs"
  shows "add_mset (xs ! i) (mset (dropAt i xs)) = mset xs"
proof -
  have "xs = take i xs @ xs ! i # drop (Suc i) xs"
    using assms by (rule id_take_nth_drop)
  then have "mset xs = mset (take i xs @ xs ! i # drop (Suc i) xs)"
    by simp
  then show ?thesis
    by (simp add: dropAt_def)
qed

lemma dropAt_set:
  assumes "i < length xs"
  shows "set xs = insert (xs ! i) (set (dropAt i xs))"
  using dropAt_mset [OF assms] by (metis set_mset_add_mset_insert set_mset_mset)

subsection \<open>The bag of job ids\<close>

lemma idBag_fields:
  "idBag (s\<lparr>loops := n\<rparr>) = idBag s"
  "idBag (s\<lparr>processing := b\<rparr>) = idBag s"
  "idBag (s\<lparr>world := w\<rparr>) = idBag s"
  "idBag (s\<lparr>activeJobs := a\<rparr>) = idBag s"
  by (simp_all add: idBag_def allJobs_def inFlight_def)

lemma processJob_start_idBag:
  assumes "queue s \<noteq> []"
  shows "idBag (processJob_start (hd (queue s)) (s\<lparr>queue := tl (queue s)\<rparr>)) = idBag s"
proof -
  from assms obtain j rest where q: "queue s = j # rest" by (cases "queue s") auto
  show ?thesis
    by (simp add: idBag_def allJobs_def inFlight_def processJob_start_def q)
qed

lemma admitLoop_idBag: "idBag (admitLoop cfg s) = idBag s"
proof (induction cfg s rule: admitLoop.induct)
  case (1 cfg s)
  show ?case
  proof (cases "length (activeJobs s) < concurrency cfg \<and> queue s \<noteq> []")
    case True
    with "1.IH" processJob_start_idBag [of s] show ?thesis
      by (subst admitLoop.simps) simp
  next
    case False
    then show ?thesis by (subst admitLoop.simps) auto
  qed
qed

lemma loopIteration_idBag: "idBag (loopIteration cfg s) = idBag s"
  by (simp add: loopIteration_def Let_def idBag_fields admitLoop_idBag)

lemma addOrder_idBag: "idBag (addOrder cfg order s) = add_mset (order_id order) (idBag s)"
proof -
  let ?s1 = "s\<lparr>queue := queue s @ [\<lparr>job_id = order_id order, job_order = order, attempts = 0,
                 job_status = waiting, job_error = None\<rparr>]\<rparr>"
  have "idBag ?s1 = add_mset (order_id order) (idBag s)"
    by (simp add: idBag_def allJobs_def inFlight_def)
  then show ?thesis
    by (simp add: addOrder_def processQueue_def Let_def loopIteration_idBag idBag_fields)
qed

lemma processJob_run_idBag: "idBag (processJob_run cfg i r s) = idBag s"
proof (cases "i < length (running s)")
  case False
  then show ?thesis by (simp add: processJob_run_def)
next
  case True
  have m: "add_mset (job_id (running s ! i)) (mset (map job_id (dropAt i (running s)))) =
           mset (map job_id (running s))"
    using dropAt_mset [OF True] by (metis image_mset_add_mset mset_map)
  show ?thesis
    using True m [symmetric]
    by (simp add: processJob_run_def Let_def idBag_def allJobs_def inFlight_def split: option.split)
qed

lemma processJob_requeue_idBag: "idBag (processJob_requeue i s) = idBag s"
proof (cases "i < length (backingOff s)")
  case False
  then show ?thesis by (simp add: processJob_requeue_def)
next
  case True
  have m: "add_mset (job_id (fst (backingOff s ! i)))
             (mset (map (job_id \<circ> fst) (dropAt i (backingOff s)))) =
           mset (map (job_id \<circ> fst) (backingOff s))"
    using dropAt_mset [OF True]
    by (metis comp_apply image_mset_add_mset mset_map)
  show ?thesis
    using True m [symmetric]
    by (simp add: processJob_requeue_def Let_def idBag_def allJobs_def inFlight_def)
qed

lemma close_idBag: "idBag (close s) \<subseteq># idBag s"
  by (simp add: close_def idBag_def allJobs_def inFlight_def)

lemma step_idBag: "idBag (step cfg e s) \<subseteq># idBag s + mset (addedIds [e])"
proof (cases e)
  case (AddOrder order)
  then show ?thesis by (simp add: addOrder_idBag)
next
  case Wake
  then show ?thesis by (simp add: wake_def loopIteration_idBag idBag_fields)
next
  case (Finish i r)
  then show ?thesis by (simp add: processJob_run_idBag)
next
  case (BackoffElapsed i)
  then show ?thesis by (simp add: processJob_requeue_idBag)
next
  case Close
  then show ?thesis by (simp add: close_idBag)
qed

lemma run_idBag: "idBag (run cfg evs s) \<subseteq># idBag s + mset (addedIds evs)"
proof (induction evs arbitrary: s)
  case Nil
  then show ?case by simp
next
  case (Cons e evs)
  have split: "mset (addedIds (e # evs)) = mset (addedIds [e]) + mset (addedIds evs)"
    by (cases e) simp_all
  have "idBag (run cfg (e # evs) s) = idBag (run cfg evs (step cfg e s))"
    by simp
  also have "\<dots> \<subseteq># idBag (step cfg e s) + mset (addedIds evs)"
    by (rule Cons.IH)
  also have "\<dots> \<subseteq># (idBag s + mset (addedIds [e])) + mset (addedIds evs)"
    using step_idBag [of cfg e s] by (simp add: subset_mset.add_mono)
  also have "\<dots> = idBag s + mset (addedIds (e # evs))"
    by (simp only: split add.assoc)
  finally show ?case .
qed

lemma count_le_1_distinct:
  assumes "\<And>a. count (mset xs) a \<le> 1"
  shows "distinct xs"
  unfolding distinct_count_atmost_1
proof (intro allI)
  fix a
  show "count (mset xs) a = (if a \<in> set xs then 1 else 0)"
  proof (cases "a \<in> set xs")
    case True
    then have "0 < count (mset xs) a" by simp
    with assms [of a] have "count (mset xs) a = 1" by linarith
    with True show ?thesis by simp
  next
    case False
    then have "count (mset xs) a = 0" by (simp add: count_eq_zero_iff)
    with False show ?thesis by simp
  qed
qed

lemma run_distinct:
  assumes "distinct (addedIds evs)"
  shows "distinct (map job_id (allJobs (run cfg evs (initial w))))"
proof (rule count_le_1_distinct)
  fix a
  have "idBag (initial w) = {#}"
    by (simp add: idBag_def allJobs_def inFlight_def initial_def)
  with run_idBag [of cfg evs "initial w"]
  have "idBag (run cfg evs (initial w)) \<subseteq># mset (addedIds evs)" by simp
  then have "count (idBag (run cfg evs (initial w))) a \<le> count (mset (addedIds evs)) a"
    by (rule mset_subset_eq_count)
  also have "\<dots> \<le> 1"
    using assms by (simp add: distinct_count_atmost_1)
  finally show "count (mset (map job_id (allJobs (run cfg evs (initial w))))) a \<le> 1"
    by (simp add: idBag_def)
qed

subsection \<open>The status of the jobs in each collection\<close>

lemma statusInv_fields:
  "statusInv (s\<lparr>loops := n\<rparr>) = statusInv s"
  "statusInv (s\<lparr>processing := b\<rparr>) = statusInv s"
  "statusInv (s\<lparr>world := w\<rparr>) = statusInv s"
  "statusInv (s\<lparr>activeJobs := a\<rparr>) = statusInv s"
  by (simp_all add: statusInv_def inFlight_def)

lemma admitLoop_statusInv: "statusInv s \<Longrightarrow> statusInv (admitLoop cfg s)"
proof (induction cfg s rule: admitLoop.induct)
  case (1 cfg s)
  show ?case
  proof (cases "length (activeJobs s) < concurrency cfg \<and> queue s \<noteq> []")
    case True
    then obtain j rest where q: "queue s = j # rest" by (cases "queue s") auto
    let ?s' = "processJob_start (hd (queue s)) (s\<lparr>queue := tl (queue s)\<rparr>)"
    have "statusInv ?s'"
      using "1.prems" by (auto simp: statusInv_def inFlight_def processJob_start_def q)
    with "1.IH" True have "statusInv (admitLoop cfg ?s')" by blast
    with True show ?thesis by (subst admitLoop.simps) simp
  next
    case False
    with "1.prems" show ?thesis by (subst admitLoop.simps) auto
  qed
qed

lemma loopIteration_statusInv: "statusInv s \<Longrightarrow> statusInv (loopIteration cfg s)"
  using admitLoop_statusInv [of s cfg]
  by (simp add: loopIteration_def Let_def statusInv_fields)

lemma step_statusInv:
  assumes inv: "statusInv s"
  shows "statusInv (step cfg e s)"
proof (cases e)
  case (AddOrder order)
  let ?s1 = "s\<lparr>queue := queue s @ [\<lparr>job_id = order_id order, job_order = order, attempts = 0,
                 job_status = waiting, job_error = None\<rparr>]\<rparr>"
  have a: "statusInv ?s1" using inv by (auto simp: statusInv_def inFlight_def)
  then have "statusInv (loopIteration cfg (?s1\<lparr>processing := True\<rparr>))"
    by (intro loopIteration_statusInv) (simp add: statusInv_fields)
  with a AddOrder show ?thesis
    by (simp add: addOrder_def processQueue_def Let_def)
next
  case Wake
  have "statusInv (loopIteration cfg (s\<lparr>loops := loops s - 1\<rparr>))"
    using inv by (intro loopIteration_statusInv) (simp add: statusInv_fields)
  with inv Wake show ?thesis by (simp add: wake_def)
next
  case (Finish i r)
  show ?thesis
  proof (cases "i < length (running s)")
    case False
    with inv Finish show ?thesis by (simp add: processJob_run_def)
  next
    case True
    have d: "set (dropAt i (running s)) \<subseteq> set (running s)" by (rule dropAt_subset)
    have j: "job_status (running s ! i) = active"
      using inv True by (simp add: statusInv_def inFlight_def)
    show ?thesis
      using inv True d j Finish
      by (auto simp: processJob_run_def Let_def statusInv_def inFlight_def split: option.split)
  qed
next
  case (BackoffElapsed i)
  show ?thesis
  proof (cases "i < length (backingOff s)")
    case False
    with inv BackoffElapsed show ?thesis by (simp add: processJob_requeue_def)
  next
    case True
    have d: "set (dropAt i (backingOff s)) \<subseteq> set (backingOff s)" by (rule dropAt_subset)
    show ?thesis
      using inv True d BackoffElapsed
      by (auto simp: processJob_requeue_def Let_def statusInv_def inFlight_def)
  qed
next
  case Close
  with inv show ?thesis by (simp add: close_def statusInv_def inFlight_def)
qed

lemma run_statusInv: "statusInv s \<Longrightarrow> statusInv (run cfg evs s)"
  by (induction evs arbitrary: s) (simp_all add: step_statusInv)

subsection \<open>The active set holds ids of jobs in flight\<close>

lemma activeInv_fields:
  "activeInv (s\<lparr>loops := n\<rparr>) = activeInv s"
  "activeInv (s\<lparr>processing := b\<rparr>) = activeInv s"
  "activeInv (s\<lparr>world := w\<rparr>) = activeInv s"
  by (simp_all add: activeInv_def inFlight_def)

lemma admitLoop_activeInv: "activeInv s \<Longrightarrow> activeInv (admitLoop cfg s)"
proof (induction cfg s rule: admitLoop.induct)
  case (1 cfg s)
  show ?case
  proof (cases "length (activeJobs s) < concurrency cfg \<and> queue s \<noteq> []")
    case True
    let ?s' = "processJob_start (hd (queue s)) (s\<lparr>queue := tl (queue s)\<rparr>)"
    have "activeInv ?s'"
      using "1.prems" by (auto simp: activeInv_def inFlight_def processJob_start_def setAdd_set)
    with "1.IH" True have "activeInv (admitLoop cfg ?s')" by blast
    with True show ?thesis by (subst admitLoop.simps) simp
  next
    case False
    with "1.prems" show ?thesis by (subst admitLoop.simps) auto
  qed
qed

lemma loopIteration_activeInv: "activeInv s \<Longrightarrow> activeInv (loopIteration cfg s)"
  using admitLoop_activeInv [of s cfg]
  by (simp add: loopIteration_def Let_def activeInv_fields)

lemma step_activeInv:
  assumes inv: "activeInv s"
  shows "activeInv (step cfg e s)"
proof (cases e)
  case (AddOrder order)
  let ?s1 = "s\<lparr>queue := queue s @ [\<lparr>job_id = order_id order, job_order = order, attempts = 0,
                 job_status = waiting, job_error = None\<rparr>]\<rparr>"
  have a: "activeInv ?s1" using inv by (simp add: activeInv_def inFlight_def)
  then have "activeInv (loopIteration cfg (?s1\<lparr>processing := True\<rparr>))"
    by (intro loopIteration_activeInv) (simp add: activeInv_fields)
  with a AddOrder show ?thesis
    by (simp add: addOrder_def processQueue_def Let_def)
next
  case Wake
  have "activeInv (loopIteration cfg (s\<lparr>loops := loops s - 1\<rparr>))"
    using inv by (intro loopIteration_activeInv) (simp add: activeInv_fields)
  with inv Wake show ?thesis by (simp add: wake_def)
next
  case (Finish i r)
  show ?thesis
  proof (cases "i < length (running s)")
    case False
    with inv Finish show ?thesis by (simp add: processJob_run_def)
  next
    case True
    have d: "set (running s) = insert (running s ! i) (set (dropAt i (running s)))"
      using True by (rule dropAt_set)
    show ?thesis
      using inv True Finish
      by (auto simp: processJob_run_def Let_def activeInv_def inFlight_def d setDelete_set
          split: option.split)
  qed
next
  case (BackoffElapsed i)
  show ?thesis
  proof (cases "i < length (backingOff s)")
    case False
    with inv BackoffElapsed show ?thesis by (simp add: processJob_requeue_def)
  next
    case True
    have d: "set (backingOff s) = insert (backingOff s ! i) (set (dropAt i (backingOff s)))"
      using True by (rule dropAt_set)
    show ?thesis
      using inv True BackoffElapsed
      by (auto simp: processJob_requeue_def Let_def activeInv_def inFlight_def d setDelete_set)
  qed
next
  case Close
  then show ?thesis by (simp add: close_def activeInv_def)
qed

lemma run_activeInv: "activeInv s \<Longrightarrow> activeInv (run cfg evs s)"
  by (induction evs arbitrary: s) (simp_all add: step_activeInv)

lemma getJob_None:
  assumes "i \<notin> job_id ` (set (queue s) \<union> set (completedJobs s) \<union> set (failedJobs s))"
  shows "getJob i s = None"
proof -
  have "find (\<lambda>j. job_id j = i) (queue s) = None"
    and "find (\<lambda>j. job_id j = i) (completedJobs s) = None"
    and "find (\<lambda>j. job_id j = i) (failedJobs s) = None"
    using assms by (auto simp: find_None_iff)
  then show ?thesis by (simp add: getJob_def)
qed

lemma active_job_not_found:
  assumes d: "distinct (map job_id (allJobs s))" and st: "statusInv s" and ac: "activeInv s"
  shows "(\<forall>j\<in>set (allJobs s). job_status j = active \<longrightarrow> getJob (job_id j) s = None) \<and>
         (\<forall>i\<in>set (activeJobs s). getJob i s = None)"
proof -
  have fl: "getJob (job_id j) s = None" if "j \<in> set (inFlight s)" for j
  proof (rule getJob_None)
    show "job_id j \<notin> job_id ` (set (queue s) \<union> set (completedJobs s) \<union> set (failedJobs s))"
      using d that by (auto simp: allJobs_def)
  qed
  have fs: "j \<in> set (inFlight s)" if "j \<in> set (allJobs s)" "job_status j = active" for j
    using st that by (auto simp: statusInv_def allJobs_def)
  have fa: "getJob i s = None" if "i \<in> set (activeJobs s)" for i
  proof -
    from ac that obtain j where "j \<in> set (inFlight s)" "i = job_id j"
      by (auto simp: activeInv_def)
    with fl show ?thesis by simp
  qed
  from fl fs fa show ?thesis by blast
qed

subsection \<open>What the lookup returns\<close>

lemma find_append_first:
  "find P (xs @ ys) = (case find P xs of Some x \<Rightarrow> Some x | None \<Rightarrow> find P ys)"
  by (induction xs) simp_all

lemma getJob_find: "getJob i s = find (\<lambda>j. job_id j = i) (searched s)"
  by (simp add: getJob_def searched_def find_append_first split: option.split)

lemma getJob_Some:
  assumes "getJob i s = Some j"
  shows "job_id j = i \<and> j \<in> set (searched s)"
proof -
  from assms have "find (\<lambda>j. job_id j = i) (searched s) = Some j"
    by (simp add: getJob_find)
  then obtain k where "k < length (searched s)" "job_id (searched s ! k) = i" "j = searched s ! k"
    unfolding find_Some_iff by blast
  then show ?thesis by simp
qed

lemma getJob_None_iff: "(getJob i s = None) = (i \<notin> job_id ` set (searched s))"
  by (auto simp: getJob_find find_None_iff)

lemma searched_not_active:
  assumes "statusInv s" and "j \<in> set (searched s)"
  shows "job_status j \<noteq> active \<and> j \<notin> set (inFlight s)"
  using assms by (auto simp: statusInv_def searched_def)

lemma active_iff_inFlight:
  assumes "statusInv s" and "j \<in> set (allJobs s)"
  shows "(job_status j = active) = (j \<in> set (inFlight s))"
  using assms by (auto simp: statusInv_def allJobs_def)

text \<open>
  Claim C10 (amended). \<open>getJob\<close> searches the waiting, completed and failed collections,
  in this order, and returns the first job there with the given id. A job is in the
  active state exactly while it awaits \<open>processOrder\<close> or its retry delay, and then it is
  in none of the three collections, so \<open>getJob\<close> never returns a job in the active state:
  what it returns has the given id and is waiting, completed or failed. It returns null
  exactly when no waiting, completed or failed job has the id. \<open>addOrder\<close> does not reject
  an id that the queue already holds, so for the id of an active job \<open>getJob\<close> returns
  another job with that id when there is one. In a history in which every order id is
  added once, \<open>getJob\<close> returns null for the id of every active job and for every id in
  the active set.
\<close>

theorem getJob_never_returns_active_job:
  "getJob i (run cfg evs (initial w)) =
     find (\<lambda>j. job_id j = i) (searched (run cfg evs (initial w))) \<and>
   (\<forall>j. getJob i (run cfg evs (initial w)) = Some j \<longrightarrow>
      job_id j = i \<and> j \<in> set (searched (run cfg evs (initial w))) \<and>
      job_status j \<noteq> active \<and> j \<notin> set (inFlight (run cfg evs (initial w)))) \<and>
   ((getJob i (run cfg evs (initial w)) = None) =
      (i \<notin> job_id ` set (searched (run cfg evs (initial w))))) \<and>
   (\<forall>j\<in>set (allJobs (run cfg evs (initial w))).
      (job_status j = active) = (j \<in> set (inFlight (run cfg evs (initial w))))) \<and>
   set (activeJobs (run cfg evs (initial w))) \<subseteq> job_id ` set (inFlight (run cfg evs (initial w))) \<and>
   (distinct (addedIds evs) \<longrightarrow>
      (\<forall>j\<in>set (allJobs (run cfg evs (initial w))).
         job_status j = active \<longrightarrow> getJob (job_id j) (run cfg evs (initial w)) = None) \<and>
      (\<forall>k\<in>set (activeJobs (run cfg evs (initial w))).
         getJob k (run cfg evs (initial w)) = None))"
proof -
  let ?s = "run cfg evs (initial w)"
  have st: "statusInv ?s"
    by (rule run_statusInv) (simp add: statusInv_def inFlight_def initial_def)
  have ac: "activeInv ?s"
    by (rule run_activeInv) (simp add: activeInv_def initial_def)
  have a: "getJob i ?s = find (\<lambda>j. job_id j = i) (searched ?s)"
    by (rule getJob_find)
  have b: "\<forall>j. getJob i ?s = Some j \<longrightarrow>
      job_id j = i \<and> j \<in> set (searched ?s) \<and> job_status j \<noteq> active \<and> j \<notin> set (inFlight ?s)"
    using getJob_Some [of i ?s] searched_not_active [OF st] by blast
  have c: "(getJob i ?s = None) = (i \<notin> job_id ` set (searched ?s))"
    by (rule getJob_None_iff)
  have d: "\<forall>j\<in>set (allJobs ?s). (job_status j = active) = (j \<in> set (inFlight ?s))"
    using active_iff_inFlight [OF st] by blast
  have e: "set (activeJobs ?s) \<subseteq> job_id ` set (inFlight ?s)"
    using ac by (simp add: activeInv_def)
  have f: "distinct (addedIds evs) \<longrightarrow>
      (\<forall>j\<in>set (allJobs ?s). job_status j = active \<longrightarrow> getJob (job_id j) ?s = None) \<and>
      (\<forall>k\<in>set (activeJobs ?s). getJob k ?s = None)"
  proof
    assume "distinct (addedIds evs)"
    then have "distinct (map job_id (allJobs ?s))" by (rule run_distinct)
    then show "(\<forall>j\<in>set (allJobs ?s). job_status j = active \<longrightarrow> getJob (job_id j) ?s = None) \<and>
      (\<forall>k\<in>set (activeJobs ?s). getJob k ?s = None)"
      using st ac by (rule active_job_not_found)
  qed
  from a b c d e f show ?thesis by (intro conjI)
qed

section \<open>Attempts with no throwing subscriber and the order in the store\<close>

definition normal :: "proc \<Rightarrow> bool" where
  "normal p = (quiet (snd p) \<and> orders (snd p) (order_id (fst p)) \<noteq> None)"

definition swapFails :: "Draws \<Rightarrow> bool" where
  "swapFails r = (failDraw (swapDraws r) < 0.05)"

definition thrownBy :: "Draws \<Rightarrow> proc \<Rightarrow> string" where
  "thrownBy r p = (case fst (processOrder r p) of Some e \<Rightarrow> e | None \<Rightarrow> [])"

lemma normal_keeps:
  assumes q: "\<And>u. publishThrows (listeners w) u = None" and s: "orders w (order_id order) = Some stored"
  shows "listeners (snd (snd (processOrder r (order, w)))) = listeners w \<and>
         order_id (fst (snd (processOrder r (order, w)))) = order_id order \<and>
         orders (snd (snd (processOrder r (order, w)))) (order_id order) \<noteq> None"
  by (simp add: processOrder_def processOrder_try_def processOrder_catch_def routed_def settle_def andThen_def
      updateOrderStatus_eq emitStatusUpdate_eq assign_def dbUpdate_def updateOrder_def Let_def q s
      executeSwap_def executeSwap_try_def)

lemma normal_next:
  assumes "normal p"
  shows "normal (snd (processOrder r p))"
proof -
  obtain order w where p: "p = (order, w)" by (cases p)
  from assms obtain stored where s: "orders w (order_id order) = Some stored"
    by (auto simp: normal_def p)
  from assms have q: "\<And>u. publishThrows (listeners w) u = None"
    by (simp add: normal_def p quiet_publishThrows)
  from normal_keeps [OF q s, of r] assms show ?thesis
    by (simp add: normal_def quiet_def p)
qed

lemma normal_outcome:
  assumes "normal p"
  shows "(fst (processOrder r p) = None) = (\<not> swapFails r)"
    and "statusesFrom (snd p) (snd (snd (processOrder r p))) =
       [PENDING, ROUTING, ROUTING, BUILDING, SUBMITTED, if swapFails r then FAILED else CONFIRMED]"
proof -
  obtain order w where p: "p = (order, w)" by (cases p)
  from assms obtain stored where s: "orders w (order_id order) = Some stored"
    by (auto simp: normal_def p)
  from assms have q: "\<And>u. publishThrows (listeners w) u = None"
    by (simp add: normal_def p quiet_publishThrows)
  from processOrder_normal [OF q s, of r]
  show "(fst (processOrder r p) = None) = (\<not> swapFails r)"
    and "statusesFrom (snd p) (snd (snd (processOrder r p))) =
       [PENDING, ROUTING, ROUTING, BUILDING, SUBMITTED, if swapFails r then FAILED else CONFIRMED]"
    by (simp_all add: swapFails_def p)
qed

lemma normal_fails:
  assumes "normal p" and "swapFails r"
  shows "fst (processOrder r p) = Some (thrownBy r p)"
proof -
  from normal_outcome(1) [OF assms(1), of r] assms(2)
  have "fst (processOrder r p) \<noteq> None" by simp
  then show ?thesis
    by (auto simp: thrownBy_def)
qed

lemma normal_succeeds:
  assumes "normal p" and "\<not> swapFails r"
  shows "fst (processOrder r p) = None"
  using normal_outcome(1) [OF assms(1), of r] assms(2) by simp

lemma example_normal: "normal (exampleOrder, exampleWorld)"
  by (simp add: normal_def example_quiet example_stored)

lemma example_id: "order_id exampleOrder = ''o1''"
  by (simp add: exampleOrder_def)

lemma example_draws: "swapFails failing" "\<not> swapFails succeeding"
  by (simp_all add: swapFails_def failing_def succeeding_def exampleDraws_def)

lemmas queue_eval =
  initial_def addOrder_def processQueue_def loopIteration_def admitLoop.simps processJob_start_def
  setAdd_def setDelete_def dropAt_def processJob_run_def processJob_requeue_def wake_def
  retryDelay_def Let_def defaultConfig_def example_id
  normal_fails normal_succeeds normal_next example_normal example_draws

section \<open>Histories of the example order\<close>

text \<open>
  A queue with one worker, a queue configured with no retries, and a second order.
\<close>

definition singleWorker :: Config where
  "singleWorker = \<lparr>concurrency = 1, maxRetries = 3\<rparr>"

definition noRetries :: Config where
  "noRetries = \<lparr>concurrency = 10, maxRetries = 0\<rparr>"

definition secondOrder :: Order where
  "secondOrder = exampleOrder\<lparr>order_id := ''o2''\<rparr>"

theorem active_never_exceeds_concurrency_witness:
  "concurrency singleWorker \<le>
     length (activeJobs (run singleWorker [AddOrder exampleOrder, AddOrder secondOrder]
       (initial exampleWorld))) \<and>
   length (activeJobs (run singleWorker [AddOrder exampleOrder, AddOrder secondOrder]
       (initial exampleWorld))) \<le> concurrency singleWorker \<and>
   map job_id (queue (run singleWorker [AddOrder exampleOrder, AddOrder secondOrder]
       (initial exampleWorld))) = [''o2''] \<and>
   length (running (step singleWorker Wake
       (run singleWorker [AddOrder exampleOrder, AddOrder secondOrder] (initial exampleWorld)))) \<le>
     length (running (run singleWorker [AddOrder exampleOrder, AddOrder secondOrder]
       (initial exampleWorld)))"
proof -
  let ?s = "run singleWorker [AddOrder exampleOrder, AddOrder secondOrder] (initial exampleWorld)"
  have full: "concurrency singleWorker \<le> length (activeJobs ?s)"
    by (simp add: queue_eval singleWorker_def secondOrder_def)
  have q: "map job_id (queue ?s) = [''o2'']"
    by (simp add: queue_eval singleWorker_def secondOrder_def)
  from active_never_exceeds_concurrency
         [of singleWorker "[AddOrder exampleOrder, AddOrder secondOrder]" exampleWorld ?s Wake]
       full q
  show ?thesis by blast
qed

theorem failed_jobs_exhausted_attempts_witness:
  "map attempts (failedJobs (run defaultConfig
       [AddOrder exampleOrder, Finish 0 failing, BackoffElapsed 0, Wake,
        Finish 0 failing, BackoffElapsed 0, Wake, Finish 0 failing] (initial exampleWorld))) = [3] \<and>
   list_all (\<lambda>j. attempts j = max 1 (maxRetries defaultConfig) \<and> job_status j = failed)
     (failedJobs (run defaultConfig
       [AddOrder exampleOrder, Finish 0 failing, BackoffElapsed 0, Wake,
        Finish 0 failing, BackoffElapsed 0, Wake, Finish 0 failing] (initial exampleWorld))) \<and>
   map snd (backingOff (run defaultConfig
       [AddOrder exampleOrder, Finish 0 failing, BackoffElapsed 0, Wake, Finish 0 failing]
       (initial exampleWorld))) = [2000] \<and>
   list_all (\<lambda>(j, d). 1 \<le> attempts j \<and> attempts j < maxRetries defaultConfig \<and>
                      d = 1000 * 2 ^ (attempts j - 1))
     (backingOff (run defaultConfig
       [AddOrder exampleOrder, Finish 0 failing, BackoffElapsed 0, Wake, Finish 0 failing]
       (initial exampleWorld)))"
proof -
  let ?e8 = "[AddOrder exampleOrder, Finish 0 failing, BackoffElapsed 0, Wake,
        Finish 0 failing, BackoffElapsed 0, Wake, Finish 0 failing]"
  let ?e5 = "[AddOrder exampleOrder, Finish 0 failing, BackoffElapsed 0, Wake, Finish 0 failing]"
  have a: "map attempts (failedJobs (run defaultConfig ?e8 (initial exampleWorld))) = [3]"
    by (simp add: queue_eval)
  have b: "map snd (backingOff (run defaultConfig ?e5 (initial exampleWorld))) = [2000]"
    by (simp add: queue_eval)
  from failed_jobs_exhausted_attempts [of defaultConfig ?e8 exampleWorld]
  have c: "list_all (\<lambda>j. attempts j = max 1 (maxRetries defaultConfig) \<and> job_status j = failed)
     (failedJobs (run defaultConfig ?e8 (initial exampleWorld)))"
    unfolding list_all_iff by blast
  from failed_jobs_exhausted_attempts [of defaultConfig ?e5 exampleWorld]
  have d: "list_all (\<lambda>(j, d). 1 \<le> attempts j \<and> attempts j < maxRetries defaultConfig \<and>
                      d = 1000 * 2 ^ (attempts j - 1))
     (backingOff (run defaultConfig ?e5 (initial exampleWorld)))"
    unfolding list_all_iff by blast
  from a b c d show ?thesis by blast
qed

theorem no_retries_fails_after_one_attempt:
  "maxRetries noRetries = 0 \<and>
   map attempts (failedJobs (run noRetries [AddOrder exampleOrder, Finish 0 failing]
     (initial exampleWorld))) = [1] \<and>
   map job_status (failedJobs (run noRetries [AddOrder exampleOrder, Finish 0 failing]
     (initial exampleWorld))) = [failed]"
  by (simp add: queue_eval noRetries_def)

text \<open>
  One worker and two orders: the first is being processed and is not found, the second
  waits and is found. Then the example order added twice: the first job is being
  processed, and the lookup of its id returns the second, waiting job.
\<close>

theorem getJob_never_returns_active_job_witness:
  "distinct (addedIds [AddOrder exampleOrder, AddOrder secondOrder]) \<and>
   map job_id (inFlight (run singleWorker [AddOrder exampleOrder, AddOrder secondOrder]
     (initial exampleWorld))) = [''o1''] \<and>
   map job_status (inFlight (run singleWorker [AddOrder exampleOrder, AddOrder secondOrder]
     (initial exampleWorld))) = [active] \<and>
   activeJobs (run singleWorker [AddOrder exampleOrder, AddOrder secondOrder]
     (initial exampleWorld)) = [''o1''] \<and>
   getJob ''o1'' (run singleWorker [AddOrder exampleOrder, AddOrder secondOrder]
     (initial exampleWorld)) = None \<and>
   map job_id (searched (run singleWorker [AddOrder exampleOrder, AddOrder secondOrder]
     (initial exampleWorld))) = [''o2''] \<and>
   map_option job_id (getJob ''o2'' (run singleWorker [AddOrder exampleOrder, AddOrder secondOrder]
     (initial exampleWorld))) = Some ''o2'' \<and>
   map_option job_status (getJob ''o2'' (run singleWorker [AddOrder exampleOrder, AddOrder secondOrder]
     (initial exampleWorld))) = Some waiting"
proof -
  let ?evs = "[AddOrder exampleOrder, AddOrder secondOrder]"
  let ?s = "run singleWorker ?evs (initial exampleWorld)"
  have h: "distinct (addedIds ?evs)"
    by (simp add: exampleOrder_def secondOrder_def)
  have a: "map job_id (inFlight ?s) = [''o1'']"
    by (simp add: queue_eval singleWorker_def secondOrder_def inFlight_def)
  have b: "map job_status (inFlight ?s) = [active]"
    by (simp add: queue_eval singleWorker_def secondOrder_def inFlight_def)
  have c: "activeJobs ?s = [''o1'']"
    by (simp add: queue_eval singleWorker_def secondOrder_def)
  have d: "map job_id (searched ?s) = [''o2'']"
    by (simp add: queue_eval singleWorker_def secondOrder_def searched_def)
  have e: "map_option job_status (getJob ''o2'' ?s) = Some waiting"
    by (simp add: queue_eval singleWorker_def secondOrder_def getJob_def)
  then obtain j where j: "getJob ''o2'' ?s = Some j" by auto
  from getJob_never_returns_active_job [of "''o2''" singleWorker ?evs exampleWorld] j
  have f: "job_id j = ''o2''" by blast
  from getJob_never_returns_active_job [of "''o1''" singleWorker ?evs exampleWorld] h
  have "\<forall>k\<in>set (activeJobs ?s). getJob k ?s = None" by blast
  then have g: "getJob ''o1'' ?s = None" unfolding c by simp
  from h a b c d e f g j show ?thesis by simp
qed

theorem duplicate_id_found_while_active:
  "map job_id (inFlight (run defaultConfig [AddOrder exampleOrder, AddOrder exampleOrder]
     (initial exampleWorld))) = [''o1''] \<and>
   map job_status (inFlight (run defaultConfig [AddOrder exampleOrder, AddOrder exampleOrder]
     (initial exampleWorld))) = [active] \<and>
   activeJobs (run defaultConfig [AddOrder exampleOrder, AddOrder exampleOrder]
     (initial exampleWorld)) = [''o1''] \<and>
   map_option job_id (getJob ''o1'' (run defaultConfig [AddOrder exampleOrder, AddOrder exampleOrder]
     (initial exampleWorld))) = Some ''o1'' \<and>
   map_option job_status (getJob ''o1'' (run defaultConfig [AddOrder exampleOrder, AddOrder exampleOrder]
     (initial exampleWorld))) = Some waiting \<and>
   getJob ''o1'' (run defaultConfig [AddOrder exampleOrder, AddOrder exampleOrder]
     (initial exampleWorld)) \<noteq> None"
  by (simp add: queue_eval inFlight_def getJob_def)

section \<open>What a retry publishes first\<close>

lemma processJob_run_world:
  "i < length (running s) \<Longrightarrow>
   world (processJob_run cfg i r s) =
     snd (snd (processOrder r (job_order (running s ! i), world s)))"
  by (simp add: processJob_run_def Let_def split: option.split)

lemma attempt_starts_pending:
  "\<exists>rest. statusesFrom w (snd (snd (processOrder r (order, w)))) = PENDING # rest \<and>
          (rest = [FAILED] \<or> (\<exists>rest'. rest = ROUTING # rest'))"
proof -
  from processOrder_trace [of r order w] obtain new where
    n: "published (snd (snd (processOrder r (order, w)))) = published w @ new"
    and ok: "fst (processOrder r (order, w)) = None \<longrightarrow>
        map pubStatus new = [PENDING, ROUTING, ROUTING, BUILDING, SUBMITTED, CONFIRMED]"
    and bad: "fst (processOrder r (order, w)) \<noteq> None \<longrightarrow>
        map pubStatus new \<in>
          {[PENDING, FAILED], [PENDING, ROUTING, FAILED], [PENDING, ROUTING, ROUTING, FAILED],
           [PENDING, ROUTING, ROUTING, BUILDING, FAILED],
           [PENDING, ROUTING, ROUTING, BUILDING, SUBMITTED, FAILED],
           [PENDING, ROUTING, ROUTING, BUILDING, SUBMITTED, CONFIRMED, FAILED]}"
    by (elim exE conjE) (rule that)
  have s: "statusesFrom w (snd (snd (processOrder r (order, w)))) = map pubStatus new"
    by (simp add: statusesFrom_def newPublications_append [OF n])
  show ?thesis
  proof (cases "fst (processOrder r (order, w)) = None")
    case True
    with ok show ?thesis unfolding s by simp
  next
    case False
    with bad show ?thesis unfolding s by auto
  qed
qed

text \<open>
  Claim C2 (amended). A job that fails with attempts still below the configured maximum
  is not recorded as failed: it waits for its retry delay and is then appended to the
  waiting list. Every attempt of a job, a retry included, runs \<open>processOrder\<close> from its
  start: the first status published by the attempt is pending, and the next one is
  routing (or failed, when a subscriber callback threw on the pending event).
\<close>

theorem retry_restarts_at_pending:
  "(i < length (running s) \<longrightarrow>
      (\<exists>rest. statusesFrom (world s) (world (processJob_run cfg i r s)) = PENDING # rest \<and>
               (rest = [FAILED] \<or> (\<exists>rest'. rest = ROUTING # rest'))) \<and>
      (fst (processOrder r (job_order (running s ! i), world s)) \<noteq> None \<and>
       attempts (running s ! i) < maxRetries cfg \<longrightarrow>
         failedJobs (processJob_run cfg i r s) = failedJobs s \<and>
         map (\<lambda>(j, d). (job_id j, attempts j, d)) (backingOff (processJob_run cfg i r s)) =
           map (\<lambda>(j, d). (job_id j, attempts j, d)) (backingOff s) @
             [(job_id (running s ! i), attempts (running s ! i),
               retryDelay (attempts (running s ! i)))])) \<and>
   (k < length (backingOff s) \<longrightarrow>
      queue (processJob_requeue k s) = queue s @ [(fst (backingOff s ! k))\<lparr>job_status := waiting\<rparr>])"
proof -
  have a: "\<exists>rest. statusesFrom (world s) (world (processJob_run cfg i r s)) = PENDING # rest \<and>
               (rest = [FAILED] \<or> (\<exists>rest'. rest = ROUTING # rest'))"
    if "i < length (running s)"
    using attempt_starts_pending [of "world s" r "job_order (running s ! i)"]
    by (simp add: processJob_run_world [OF that])
  have b: "failedJobs (processJob_run cfg i r s) = failedJobs s \<and>
         map (\<lambda>(j, d). (job_id j, attempts j, d)) (backingOff (processJob_run cfg i r s)) =
           map (\<lambda>(j, d). (job_id j, attempts j, d)) (backingOff s) @
             [(job_id (running s ! i), attempts (running s ! i),
               retryDelay (attempts (running s ! i)))]"
    if "i < length (running s)"
      and "fst (processOrder r (job_order (running s ! i), world s)) \<noteq> None"
      and "attempts (running s ! i) < maxRetries cfg"
    using that by (auto simp: processJob_run_def Let_def)
  have c: "queue (processJob_requeue k s) =
             queue s @ [(fst (backingOff s ! k))\<lparr>job_status := waiting\<rparr>]"
    if "k < length (backingOff s)"
    using that by (simp add: processJob_requeue_def Let_def)
  from a b c show ?thesis by blast
qed

lemma retried_job_running:
  "map attempts (running (run defaultConfig
       [AddOrder exampleOrder, Finish 0 failing, BackoffElapsed 0, Wake] (initial exampleWorld))) = [2]"
  by (simp add: queue_eval)

lemma retried_attempt_statuses:
  "statusesFrom
     (world (run defaultConfig
       [AddOrder exampleOrder, Finish 0 failing, BackoffElapsed 0, Wake] (initial exampleWorld)))
     (world (processJob_run defaultConfig 0 succeeding (run defaultConfig
       [AddOrder exampleOrder, Finish 0 failing, BackoffElapsed 0, Wake] (initial exampleWorld)))) =
   [PENDING, ROUTING, ROUTING, BUILDING, SUBMITTED, CONFIRMED]"
  using normal_outcome(2) [OF normal_next [OF example_normal, of failing], of succeeding]
  by (simp add: queue_eval)

theorem retry_restarts_at_pending_witness:
  "map attempts (running (run defaultConfig
       [AddOrder exampleOrder, Finish 0 failing, BackoffElapsed 0, Wake] (initial exampleWorld))) = [2] \<and>
   take 2 (statusesFrom
     (world (run defaultConfig
       [AddOrder exampleOrder, Finish 0 failing, BackoffElapsed 0, Wake] (initial exampleWorld)))
     (world (processJob_run defaultConfig 0 succeeding (run defaultConfig
       [AddOrder exampleOrder, Finish 0 failing, BackoffElapsed 0, Wake] (initial exampleWorld))))) =
     [PENDING, ROUTING] \<and>
   map attempts (running (run defaultConfig [AddOrder exampleOrder] (initial exampleWorld))) = [1] \<and>
   failedJobs (processJob_run defaultConfig 0 failing
     (run defaultConfig [AddOrder exampleOrder] (initial exampleWorld))) = [] \<and>
   map (\<lambda>(j, d). (job_id j, attempts j, d)) (backingOff (processJob_run defaultConfig 0 failing
     (run defaultConfig [AddOrder exampleOrder] (initial exampleWorld)))) = [(''o1'', 1, 1000)] \<and>
   map (\<lambda>j. (job_id j, attempts j, job_status j)) (queue (processJob_requeue 0
     (run defaultConfig [AddOrder exampleOrder, Finish 0 failing] (initial exampleWorld)))) =
     [(''o1'', 1, waiting)]"
proof -
  let ?s = "run defaultConfig
       [AddOrder exampleOrder, Finish 0 failing, BackoffElapsed 0, Wake] (initial exampleWorld)"
  let ?s1 = "run defaultConfig [AddOrder exampleOrder] (initial exampleWorld)"
  let ?s2 = "run defaultConfig [AddOrder exampleOrder, Finish 0 failing] (initial exampleWorld)"
  have l: "0 < length (running ?s)"
    by (simp add: queue_eval)
  from retry_restarts_at_pending [of 0 ?s defaultConfig succeeding] l
  obtain rest where r: "statusesFrom (world ?s) (world (processJob_run defaultConfig 0 succeeding ?s)) =
      PENDING # rest" and "rest = [FAILED] \<or> (\<exists>rest'. rest = ROUTING # rest')"
    by blast
  moreover have "rest \<noteq> [FAILED]"
    using r retried_attempt_statuses by simp
  ultimately have a: "take 2 (statusesFrom (world ?s)
      (world (processJob_run defaultConfig 0 succeeding ?s))) = [PENDING, ROUTING]"
    by (auto simp: eval_nat_numeral)
  have l1: "0 < length (running ?s1)"
    and j1: "map (\<lambda>j. (job_id j, attempts j)) (running ?s1) = [(''o1'', 1)]"
    and f1: "failedJobs ?s1 = []" and b1: "backingOff ?s1 = []"
    and att: "attempts (running ?s1 ! 0) < maxRetries defaultConfig"
    and jid: "job_id (running ?s1 ! 0) = ''o1''" "attempts (running ?s1 ! 0) = 1"
    by (simp_all add: queue_eval)
  have thrown: "fst (processOrder failing (job_order (running ?s1 ! 0), world ?s1)) \<noteq> None"
    using example_failing_run by (simp add: queue_eval)
  from retry_restarts_at_pending [of 0 ?s1 defaultConfig failing] l1 thrown att
  have b0: "failedJobs (processJob_run defaultConfig 0 failing ?s1) = failedJobs ?s1 \<and>
     map (\<lambda>(j, d). (job_id j, attempts j, d)) (backingOff (processJob_run defaultConfig 0 failing ?s1)) =
       map (\<lambda>(j, d). (job_id j, attempts j, d)) (backingOff ?s1) @
         [(job_id (running ?s1 ! 0), attempts (running ?s1 ! 0),
           retryDelay (attempts (running ?s1 ! 0)))]"
    by blast
  have b: "failedJobs (processJob_run defaultConfig 0 failing ?s1) = [] \<and>
     map (\<lambda>(j, d). (job_id j, attempts j, d)) (backingOff (processJob_run defaultConfig 0 failing ?s1)) =
       [(''o1'', 1, 1000)]"
    unfolding b0 [THEN conjunct1] b0 [THEN conjunct2] f1 b1 jid
    by (simp add: retryDelay_def)
  have l2: "0 < length (backingOff ?s2)"
    and j2: "map (\<lambda>j. (job_id j, attempts j)) (map fst (backingOff ?s2)) = [(''o1'', 1)]"
    and q2: "queue ?s2 = []"
    by (simp_all add: queue_eval)
  from retry_restarts_at_pending [of _ ?s2 _ _ 0] l2
  have c0: "queue (processJob_requeue 0 ?s2) =
              queue ?s2 @ [(fst (backingOff ?s2 ! 0))\<lparr>job_status := waiting\<rparr>]"
    by blast
  have e2: "map (\<lambda>j. (job_id j, attempts j, job_status j))
              (queue ?s2 @ [(fst (backingOff ?s2 ! 0))\<lparr>job_status := waiting\<rparr>]) =
            [(''o1'', 1, waiting)]"
    by (simp add: queue_eval)
  have c: "map (\<lambda>j. (job_id j, attempts j, job_status j)) (queue (processJob_requeue 0 ?s2)) =
     [(''o1'', 1, waiting)]"
    unfolding c0 by (rule e2)
  have m: "map attempts (running ?s1) = [1]" by (simp add: queue_eval)
  from retried_job_running a m b c show ?thesis by blast
qed

theorem retry_first_status_is_pending:
  "map attempts (running (run defaultConfig
       [AddOrder exampleOrder, Finish 0 failing, BackoffElapsed 0, Wake] (initial exampleWorld))) = [2] \<and>
   hd (statusesFrom
     (world (run defaultConfig
       [AddOrder exampleOrder, Finish 0 failing, BackoffElapsed 0, Wake] (initial exampleWorld)))
     (world (processJob_run defaultConfig 0 succeeding (run defaultConfig
       [AddOrder exampleOrder, Finish 0 failing, BackoffElapsed 0, Wake] (initial exampleWorld))))) =
     PENDING \<and>
   hd (statusesFrom
     (world (run defaultConfig
       [AddOrder exampleOrder, Finish 0 failing, BackoffElapsed 0, Wake] (initial exampleWorld)))
     (world (processJob_run defaultConfig 0 succeeding (run defaultConfig
       [AddOrder exampleOrder, Finish 0 failing, BackoffElapsed 0, Wake] (initial exampleWorld))))) \<noteq>
     ROUTING"
  using retried_job_running retried_attempt_statuses by simp

end
